theory Spec2Isabelle
  imports Main "HOL-Library.Multiset"
begin

section \<open>Translation records and the JavaScript \<open>Map\<close>\<close>

text \<open>
  A stored translation, as \<open>saveTranslation\<close> writes it with \<open>db.put\<close>:
  \<open>{ _id, input, output, lang_in, lang_out }\<close>. The revision field that the
  document store adds is read by no function modelled here and is left out.
  JavaScript strings are modelled as \<open>string\<close>.
\<close>

record translation =
  doc_id :: string
  input :: string
  output' :: string
  lang_in :: string
  lang_out :: string

text \<open>
  A JavaScript \<open>Map\<close> keeps its entries in insertion order of the keys.
  \<open>Map.prototype.set\<close> on a key that is present replaces the value and leaves the
  key at its place; on a new key it appends the entry. \<open>new Map(entries)\<close> calls
  \<open>set\<close> for each entry from left to right, \<open>values()\<close> lists the values in
  entry order.
\<close>

fun map_set :: "'k \<Rightarrow> 'v \<Rightarrow> ('k \<times> 'v) list \<Rightarrow> ('k \<times> 'v) list" where
  "map_set k v [] = [(k, v)]"
| "map_set k v (e # m) = (if fst e = k then (k, v) # m else e # map_set k v m)"

definition new_Map :: "('k \<times> 'v) list \<Rightarrow> ('k \<times> 'v) list" where
  "new_Map entries = foldl (\<lambda>m e. map_set (fst e) (snd e) m) [] entries"

definition map_values :: "('k \<times> 'v) list \<Rightarrow> 'v list" where
  "map_values m = map snd m"

text \<open>
  \<open>const uniqueTranslations =
     [...new Map(translations.map(item => [item.input, item])).values()];\<close>
\<close>

definition uniqueTranslations :: "translation list \<Rightarrow> translation list" where
  "uniqueTranslations translations =
     map_values (new_Map (map (\<lambda>item. (input item, item)) translations))"

text \<open>The first and the last record of a sequence that carry a given input text.\<close>

definition first_with_input :: "string \<Rightarrow> translation list \<Rightarrow> translation option" where
  "first_with_input k ts = find (\<lambda>r. input r = k) ts"

definition last_with_input :: "string \<Rightarrow> translation list \<Rightarrow> translation option" where
  "last_with_input k ts = find (\<lambda>r. input r = k) (rev ts)"

text \<open>The keys of a sequence in order of first occurrence.\<close>

fun first_occurrences :: "'a list \<Rightarrow> 'a list" where
  "first_occurrences [] = []"
| "first_occurrences (x # xs) = x # first_occurrences (removeAll x xs)"

definition rec_ax :: translation where
  "rec_ax = \<lparr>doc_id = ''0'', input = ''a'', output' = ''x'', lang_in = ''en'', lang_out = ''fr''\<rparr>"

definition rec_ay :: translation where
  "rec_ay = \<lparr>doc_id = ''1'', input = ''a'', output' = ''y'', lang_in = ''en'', lang_out = ''de''\<rparr>"

section \<open>Strings: number rendering and \<open>split\<close>\<close>

text \<open>
  The template literals \<open>`input-${index}`\<close> and \<open>`output-${index}`\<close> render the
  array index, a non-negative integer, in decimal without leading zeros (array indices
  are far below the size from which JavaScript writes numbers with an exponent).
\<close>

definition digit_char :: "nat \<Rightarrow> char" where
  "digit_char d = char_of (48 + d)"

fun toString :: "nat \<Rightarrow> string" where
  "toString n =
     (if n < 10 then [digit_char n] else toString (n div 10) @ [digit_char (n mod 10)])"

declare toString.simps [simp del]

text \<open>
  \<open>String.prototype.split(sep)\<close> for a one-character separator: the pieces between
  the separators, the empty string giving one empty piece.
\<close>

fun split_str :: "char \<Rightarrow> string \<Rightarrow> string list" where
  "split_str sep [] = [[]]"
| "split_str sep (c # cs) =
     (let r = split_str sep cs in if c = sep then [] # r else (c # hd r) # tl r)"

text \<open>
  \<open>box.dataset.id.split('-')[1]\<close>: the second piece, \<open>None\<close> standing for
  \<open>undefined\<close> when there is no second piece.
\<close>

definition pairKey :: "string \<Rightarrow> string option" where
  "pairKey ident =
     (let parts = split_str CHR ''-'' ident
      in if 1 < length parts then Some (parts ! 1) else None)"

section \<open>Cards\<close>

text \<open>
  The class tokens the game puts on a card element, and the element itself: its class
  list, its two data attributes, its text, and whether \<open>flipCard\<close> is registered as
  its click listener.
\<close>

datatype token = box_c | initial_c | hidden_c | flipped_c | matched_c

record box =
  classList :: "token list"
  dataset_id :: string
  dataset_content :: string
  textContent :: string
  onclick :: bool

definition cl_add :: "token \<Rightarrow> token list \<Rightarrow> token list" where
  "cl_add t cs = (if t \<in> set cs then cs else cs @ [t])"

definition cl_remove :: "token \<Rightarrow> token list \<Rightarrow> token list" where
  "cl_remove t cs = removeAll t cs"

definition createBox :: "string \<Rightarrow> string \<Rightarrow> box" where
  "createBox content ident =
     \<lparr>classList = cl_add initial_c (cl_add box_c []),
      dataset_id = ident,
      dataset_content = content,
      textContent = content,
      onclick = False\<rparr>"

text \<open>The state of a card as the specification names it, read off the class list.\<close>

datatype card_state = Initial | Hidden | Revealed | Matched

definition card_state :: "box \<Rightarrow> card_state" where
  "card_state c =
     (if matched_c \<in> set (classList c) then Matched
      else if flipped_c \<in> set (classList c) then Revealed
      else if hidden_c \<in> set (classList c) then Hidden
      else Initial)"

section \<open>Shuffling and pair selection\<close>

text \<open>
  \<open>shuffleArray\<close> sorts the array in place with a comparator that answers at random.
  Which order comes out depends on the engine and on \<open>Math.random\<close>; the result of the
  sort is taken as a parameter, a function from the array to its reordering. What is
  assumed of the engine's sort, whatever the comparator answers, is that it reorders:
  it neither drops nor invents elements.
\<close>

definition is_shuffle :: "('a list \<Rightarrow> 'a list) \<Rightarrow> bool" where
  "is_shuffle sort_random = (\<forall>xs. mset (sort_random xs) = mset xs)"

definition getRandomSubset :: "('a list \<Rightarrow> 'a list) \<Rightarrow> 'a list \<Rightarrow> nat \<Rightarrow> 'a list" where
  "getRandomSubset shuffleArray array size' = take size' (shuffleArray array)"

definition numPairs :: "translation list \<Rightarrow> nat" where
  "numPairs unique = min 6 (max 3 (length unique))"

definition selectedTranslations ::
  "(translation list \<Rightarrow> translation list) \<Rightarrow> translation list \<Rightarrow> translation list" where
  "selectedTranslations shuffleArray translations =
     getRandomSubset shuffleArray (uniqueTranslations translations)
       (numPairs (uniqueTranslations translations))"

text \<open>
  The \<open>forEach\<close> that fills the \<open>cards\<close> array: for the translation at \<open>index\<close>
  the input card and then the output card.
\<close>

definition pair_cards :: "nat \<times> translation \<Rightarrow> box list" where
  "pair_cards p =
     [createBox (input (snd p)) (''input-'' @ toString (fst p)),
      createBox (output' (snd p)) (''output-'' @ toString (fst p))]"

definition create_cards :: "translation list \<Rightarrow> box list" where
  "create_cards selected = concat (map pair_cards (enumerate 0 selected))"

section \<open>The round\<close>

datatype callback = StartGame | AutoHide | MismatchHide

datatype js_error = TypeError

text \<open>
  The page and the variables the round closes over. A card is referred to by its index
  in \<open>cards\<close> (object identity of the element in the source). A pending timeout is its
  id, its delay in milliseconds and its callback. \<open>winnerMessage_display\<close> and
  \<open>resetButton_display\<close> are true for \<open>'block'\<close> and false for \<open>'none'\<close>.
\<close>

record game =
  message :: string
  winnerMessage_display :: bool
  resetButton_display :: bool
  container_disabled :: bool
  cards :: "box list"
  firstCard :: "nat option"
  secondCard :: "nat option"
  lockBoard :: bool
  flipTimer :: "nat option"
  matchedCount :: nat
  timers :: "(nat \<times> nat \<times> callback) list"
  next_timer :: nat

definition setTimeout :: "callback \<Rightarrow> nat \<Rightarrow> game \<Rightarrow> nat \<times> game" where
  "setTimeout cb ms s =
     (next_timer s,
      s\<lparr>timers := timers s @ [(next_timer s, ms, cb)], next_timer := Suc (next_timer s)\<rparr>)"

definition clearTimeout :: "nat option \<Rightarrow> game \<Rightarrow> game" where
  "clearTimeout h s =
     (case h of None \<Rightarrow> s
      | Some t \<Rightarrow> s\<lparr>timers := filter (\<lambda>x. fst x \<noteq> t) (timers s)\<rparr>)"

definition update_card :: "nat \<Rightarrow> (box \<Rightarrow> box) \<Rightarrow> game \<Rightarrow> game" where
  "update_card i f s = s\<lparr>cards := (cards s)[i := f (cards s ! i)]\<rparr>"

definition page_load :: game where
  "page_load =
     \<lparr>message = [], winnerMessage_display = False, resetButton_display = False,
      container_disabled = False, cards = [], firstCard = None, secondCard = None,
      lockBoard = False, flipTimer = None, matchedCount = 0, timers = [], next_timer = 1\<rparr>"

text \<open>
  \<open>initializeGame\<close> on a freshly loaded page, up to the point where it schedules the
  start of the round 4000 ms later.
\<close>

definition initializeGame ::
  "(translation list \<Rightarrow> translation list) \<Rightarrow> (box list \<Rightarrow> box list) \<Rightarrow> translation list \<Rightarrow> game" where
  "initializeGame shuffleT shuffleB translations =
     (let pg = page_load\<lparr>message := [], winnerMessage_display := False,
                          resetButton_display := False, cards := []\<rparr>
      in if length (uniqueTranslations translations) < 3
         then pg\<lparr>message := ''Not enough words to play. Please save more words.'',
                 container_disabled := True\<rparr>
         else snd (setTimeout StartGame 4000
                (pg\<lparr>cards := shuffleB (create_cards (selectedTranslations shuffleT translations))\<rparr>)))"

text \<open>The callback of the 4000 ms timeout: hide every card, set up the round's variables, register the listeners.\<close>

definition hide_initial :: "box \<Rightarrow> box" where
  "hide_initial b =
     b\<lparr>classList := cl_add hidden_c (cl_remove initial_c (classList b)),
          textContent := []\<rparr>"

definition startGame :: "game \<Rightarrow> game" where
  "startGame s =
     s\<lparr>cards := map (\<lambda>b. (hide_initial b)\<lparr>onclick := True\<rparr>) (cards s),
       firstCard := None, secondCard := None, lockBoard := False,
       flipTimer := None, matchedCount := 0\<rparr>"

definition resetBoard :: "game \<Rightarrow> game" where
  "resetBoard s = s\<lparr>firstCard := None, secondCard := None, lockBoard := False\<rparr>"

definition reveal :: "box \<Rightarrow> box" where
  "reveal b =
     b\<lparr>classList := cl_remove hidden_c (cl_add flipped_c (classList b)),
          textContent := dataset_content b\<rparr>"

definition conceal :: "box \<Rightarrow> box" where
  "conceal b =
     b\<lparr>classList := cl_add hidden_c (cl_remove flipped_c (classList b)),
          textContent := []\<rparr>"

definition mark_matched :: "box \<Rightarrow> box" where
  "mark_matched b =
     b\<lparr>classList := cl_add matched_c (classList b), onclick := False\<rparr>"

text \<open>
  The second half of \<open>flipCard\<close>, reached when a first card \<open>f\<close> is selected and
  the clicked card \<open>i\<close> has been turned face up.
\<close>

definition second_selection :: "nat \<Rightarrow> nat \<Rightarrow> game \<Rightarrow> game" where
  "second_selection f i s =
     (let s1 = s\<lparr>secondCard := Some i, lockBoard := True\<rparr>;
          isMatch = (pairKey (dataset_id (cards s1 ! f)) = pairKey (dataset_id (cards s1 ! i)))
      in if isMatch
         then (let s2 = update_card i mark_matched (update_card f mark_matched s1);
                   s3 = s2\<lparr>matchedCount := matchedCount s2 + 2\<rparr>;
                   s4 = (if matchedCount s3 = length (cards s3)
                         then s3\<lparr>winnerMessage_display := True, resetButton_display := True\<rparr>
                         else s3)
               in resetBoard s4)
         else snd (setTimeout MismatchHide 500 s1))"

definition flipCard :: "nat \<Rightarrow> game \<Rightarrow> game" where
  "flipCard i s =
     (if lockBoard s \<or> firstCard s = Some i then s
      else (let s1 = clearTimeout (flipTimer s) s;
                s2 = update_card i reveal s1
            in case firstCard s2 of
                 None \<Rightarrow>
                   (let r = setTimeout AutoHide 2000 (s2\<lparr>firstCard := Some i\<rparr>)
                    in (snd r)\<lparr>flipTimer := Some (fst r)\<rparr>)
               | Some f \<Rightarrow> second_selection f i s2))"

text \<open>
  The two timeout callbacks of \<open>flipCard\<close>. Both dereference \<open>firstCard\<close> (and the
  second also \<open>secondCard\<close>) as they are when the timeout fires; on \<open>null\<close> that is
  a \<open>TypeError\<close>.
\<close>

definition autoHide :: "game \<Rightarrow> js_error + game" where
  "autoHide s =
     (case firstCard s of
        None \<Rightarrow> Inl TypeError
      | Some f \<Rightarrow> Inr ((update_card f conceal s)\<lparr>firstCard := None\<rparr>))"

definition mismatchHide :: "game \<Rightarrow> js_error + game" where
  "mismatchHide s =
     (case firstCard s of
        None \<Rightarrow> Inl TypeError
      | Some f \<Rightarrow>
          (case secondCard s of
             None \<Rightarrow> Inl TypeError
           | Some g \<Rightarrow> Inr (resetBoard (update_card g conceal (update_card f conceal s)))))"

fun run_callback :: "callback \<Rightarrow> game \<Rightarrow> js_error + game" where
  "run_callback StartGame s = Inr (startGame s)"
| "run_callback AutoHide s = autoHide s"
| "run_callback MismatchHide s = mismatchHide s"

text \<open>
  The events of a round: a click on the card at an index, and the expiry of the timeout
  with a given id. A click reaches \<open>flipCard\<close> only through a registered listener; a
  timeout that is not pending does nothing. Time itself is not modelled: a pending
  timeout may fire at any moment.
\<close>

datatype event = Click nat | Timeout nat

fun step :: "game \<Rightarrow> event \<Rightarrow> js_error + game" where
  "step s (Click i) =
     (if i < length (cards s) \<and> onclick (cards s ! i) then Inr (flipCard i s) else Inr s)"
| "step s (Timeout t) =
     (case find (\<lambda>x. fst x = t) (timers s) of
        None \<Rightarrow> Inr s
      | Some x \<Rightarrow> run_callback (snd (snd x)) (s\<lparr>timers := filter (\<lambda>y. fst y \<noteq> t) (timers s)\<rparr>))"

fun run :: "game \<Rightarrow> event list \<Rightarrow> js_error + game" where
  "run s [] = Inr s"
| "run s (e # es) = (case step s e of Inl err \<Rightarrow> Inl err | Inr s' \<Rightarrow> run s' es)"

definition revealed_count :: "game \<Rightarrow> nat" where
  "revealed_count s = length (filter (\<lambda>c. card_state c = Revealed) (cards s))"

section \<open>The shapes a card and a round can take\<close>

text \<open>
  The four shapes of a card element the game produces: class list, text and listener
  together.
\<close>

definition initial_box :: "box \<Rightarrow> bool" where
  "initial_box c =
     (classList c = [box_c, initial_c] \<and> textContent c = dataset_content c \<and> \<not> onclick c)"

definition hidden_box :: "box \<Rightarrow> bool" where
  "hidden_box c = (classList c = [box_c, hidden_c] \<and> textContent c = [] \<and> onclick c)"

definition revealed_box :: "box \<Rightarrow> bool" where
  "revealed_box c =
     (classList c = [box_c, flipped_c] \<and> textContent c = dataset_content c \<and> onclick c)"

definition matched_box :: "box \<Rightarrow> bool" where
  "matched_box c =
     (classList c = [box_c, flipped_c, matched_c] \<and> textContent c = dataset_content c
      \<and> \<not> onclick c)"

text \<open>
  The cards at the indices in \<open>A\<close> are face up and unmatched, every other card is
  face down or matched.
\<close>

definition boxes_ok :: "nat set \<Rightarrow> box list \<Rightarrow> bool" where
  "boxes_ok A cs =
     (\<forall>j < length cs. if j \<in> A then revealed_box (cs ! j)
                       else hidden_box (cs ! j) \<or> matched_box (cs ! j))"

definition count_ok :: "game \<Rightarrow> bool" where
  "count_ok s =
     (cards s \<noteq> []
      \<and> matchedCount s = length (filter matched_box (cards s))
      \<and> winnerMessage_display s = (matchedCount s = length (cards s))
      \<and> resetButton_display s = winnerMessage_display s)"

text \<open>Before the start timeout has fired.\<close>

definition waiting :: "game \<Rightarrow> bool" where
  "waiting s =
     (cards s \<noteq> [] \<and> list_all initial_box (cards s)
      \<and> (\<exists>t. timers s = [(t, 4000, StartGame)])
      \<and> firstCard s = None \<and> secondCard s = None \<and> \<not> lockBoard s
      \<and> matchedCount s = 0
      \<and> \<not> winnerMessage_display s \<and> \<not> resetButton_display s)"

text \<open>
  After it: no selection and no timeout pending; or a first selection with its auto-hide
  timeout pending; or two selections, the board locked and the mismatch timeout pending.
\<close>

definition playing :: "game \<Rightarrow> bool" where
  "playing s =
     (count_ok s \<and>
      (case firstCard s of
         None \<Rightarrow>
           secondCard s = None \<and> \<not> lockBoard s \<and> timers s = [] \<and> boxes_ok {} (cards s)
       | Some f \<Rightarrow>
           f < length (cards s) \<and>
           (case secondCard s of
              None \<Rightarrow>
                \<not> lockBoard s
                \<and> (\<exists>t. flipTimer s = Some t \<and> timers s = [(t, 2000, AutoHide)])
                \<and> boxes_ok {f} (cards s)
            | Some g \<Rightarrow>
                lockBoard s \<and> g < length (cards s) \<and> f \<noteq> g
                \<and> (\<exists>t. timers s = [(t, 500, MismatchHide)])
                \<and> boxes_ok {f, g} (cards s))))"

definition round_inv :: "game \<Rightarrow> bool" where
  "round_inv s = (waiting s \<or> playing s)"

section \<open>The history store\<close>

text \<open>
  The store behind \<open>db\<close> is a document database of the PouchDB library, which is not
  part of this repository. What the functions below use of it is modelled as follows.
  A database holds documents with pairwise different \<open>_id\<close> strings, kept here in the
  order in which \<open>put\<close> stored them. \<open>allDocs\<close> lists the documents ordered by
  \<open>_id\<close>, compared as strings, character code by character code; with
  \<open>descending: true\<close> in the reverse order; \<open>limit\<close> keeps the first rows of the
  listing. \<open>put\<close> of a document without revision whose \<open>_id\<close> is present is
  rejected as a conflict. \<open>find\<close> without an index goes through the documents in
  \<open>_id\<close> order. Every operation is rejected while the database cannot be reached.
\<close>

record pouch =
  reachable :: bool
  docs :: "translation list"

datatype db_error = Unreachable | Conflict

fun str_less :: "string \<Rightarrow> string \<Rightarrow> bool" where
  "str_less [] [] = False"
| "str_less [] (y # ys) = True"
| "str_less (x # xs) [] = False"
| "str_less (x # xs) (y # ys) =
     ((of_char x :: nat) < of_char y \<or> (x = y \<and> str_less xs ys))"

fun insert_by_id :: "translation \<Rightarrow> translation list \<Rightarrow> translation list" where
  "insert_by_id d [] = [d]"
| "insert_by_id d (e # es) =
     (if str_less (doc_id e) (doc_id d) then e # insert_by_id d es else d # e # es)"

definition by_id :: "translation list \<Rightarrow> translation list" where
  "by_id ds = foldr insert_by_id ds []"

definition allDocs :: "pouch \<Rightarrow> bool \<Rightarrow> nat option \<Rightarrow> db_error + translation list" where
  "allDocs db descending limit =
     (if \<not> reachable db then Inl Unreachable
      else (let rows = (if descending then rev (by_id (docs db)) else by_id (docs db))
            in Inr (case limit of None \<Rightarrow> rows | Some n \<Rightarrow> take n rows)))"

definition put :: "pouch \<Rightarrow> translation \<Rightarrow> db_error + pouch" where
  "put db d =
     (if \<not> reachable db then Inl Unreachable
      else if doc_id d \<in> set (map doc_id (docs db)) then Inl Conflict
      else Inr (db\<lparr>docs := docs db @ [d]\<rparr>))"

definition find_docs ::
  "pouch \<Rightarrow> (translation \<Rightarrow> bool) \<Rightarrow> nat option \<Rightarrow> db_error + translation list" where
  "find_docs db selector limit =
     (if \<not> reachable db then Inl Unreachable
      else (let found = filter selector (by_id (docs db))
            in Inr (case limit of None \<Rightarrow> found | Some n \<Rightarrow> take n found)))"

text \<open>
  \<open>parseInt\<close> on the ids the store holds. They are written by \<open>nextID\<close> alone, as
  decimal numerals (or the text of \<open>NaN\<close>): the value of the longest prefix of decimal
  digits, \<open>None\<close> for \<open>NaN\<close> when there is none. Signs, blanks and the hexadecimal
  prefix do not occur in these ids and are not modelled.
\<close>

definition is_digit :: "char \<Rightarrow> bool" where
  "is_digit c = (48 \<le> (of_char c :: nat) \<and> (of_char c :: nat) \<le> 57)"

definition parseInt :: "string \<Rightarrow> nat option" where
  "parseInt str =
     (let ds = takeWhile is_digit str
      in if ds = [] then None
         else Some (foldl (\<lambda>a c. 10 * a + ((of_char c :: nat) - 48)) 0 ds))"

definition nextID :: "pouch \<Rightarrow> db_error + string" where
  "nextID db =
     (case allDocs db True (Some 1) of
        Inl e \<Rightarrow> Inl e
      | Inr rows \<Rightarrow>
          Inr (if length rows > 0
               then (case parseInt (doc_id (hd rows)) of
                       None \<Rightarrow> ''NaN''
                     | Some n \<Rightarrow> toString (n + 1))
               else toString 0))"

text \<open>\<open>findTranslation\<close> catches every error and answers \<open>null\<close>.\<close>

definition findTranslation :: "pouch \<Rightarrow> string \<Rightarrow> string \<Rightarrow> string \<Rightarrow> string option" where
  "findTranslation db inp l_in l_out =
     (case find_docs db (\<lambda>d. input d = inp \<and> lang_in d = l_in \<and> lang_out d = l_out) (Some 1) of
        Inl e \<Rightarrow> None
      | Inr result \<Rightarrow> (if length result > 0 then Some (doc_id (hd result)) else None))"

text \<open>
  \<open>saveTranslation\<close>: the store afterwards, or the error it rethrows. An id found is
  a non-empty string and so counts as true.
\<close>

definition saveTranslation ::
  "pouch \<Rightarrow> string \<Rightarrow> string \<Rightarrow> string \<Rightarrow> string \<Rightarrow> db_error + pouch" where
  "saveTranslation db inp outp l_in l_out =
     (case findTranslation db inp l_in l_out of
        Some existingId \<Rightarrow>
          (if existingId \<noteq> [] then Inr db
           else (case nextID db of
                   Inl e \<Rightarrow> Inl e
                 | Inr ident \<Rightarrow>
                     put db \<lparr>doc_id = ident, input = inp, output' = outp,
                             lang_in = l_in, lang_out = l_out\<rparr>))
      | None \<Rightarrow>
          (case nextID db of
             Inl e \<Rightarrow> Inl e
           | Inr ident \<Rightarrow>
               put db \<lparr>doc_id = ident, input = inp, output' = outp,
                       lang_in = l_in, lang_out = l_out\<rparr>))"

definition loadHistory :: "pouch \<Rightarrow> nat \<Rightarrow> db_error + translation list" where
  "loadHistory db n =
     (case allDocs db True (Some n) of Inl e \<Rightarrow> Inl e | Inr rows \<Rightarrow> Inr rows)"

text \<open>
  \<open>searchTranslations\<close> builds \<open>new RegExp(searchText, 'i')\<close> and hands it to
  \<open>find\<close> as the \<open>$regex\<close> condition on \<open>input\<close>, which keeps the documents on
  whose input the expression's \<open>test\<close> succeeds. The regular-expression engine belongs
  to the JavaScript runtime and is a parameter: \<open>RegExp pattern flags\<close> is the
  compiled expression, or \<open>None\<close> for the \<open>SyntaxError\<close> of a malformed pattern,
  and \<open>test\<close> says whether a compiled expression matches somewhere in a string.
  Every failure is rethrown as the one error \<open>Failed to search translations\<close>.
\<close>

datatype search_error = Failed_to_search_translations

definition searchTranslations ::
  "(string \<Rightarrow> string \<Rightarrow> 're option) \<Rightarrow> ('re \<Rightarrow> string \<Rightarrow> bool) \<Rightarrow> pouch \<Rightarrow> string
     \<Rightarrow> search_error + translation list" where
  "searchTranslations RegExp test db searchText =
     (case RegExp searchText ''i'' of
        None \<Rightarrow> Inl Failed_to_search_translations
      | Some regex \<Rightarrow>
          (case find_docs db (\<lambda>d. test regex (input d)) None of
             Inl e \<Rightarrow> Inl Failed_to_search_translations
           | Inr result \<Rightarrow> Inr result))"

section \<open>Fetching the records\<close>

text \<open>
  The route \<open>GET /read\<close> of the server answers 200 with the history as JSON, or 404
  when \<open>loadHistory\<close> throws. A response as \<open>fetchTranslations\<close> sees it: the
  request rejected, or a status code with a body that parses as a JSON array of records
  or does not parse.
\<close>

datatype response = Rejected | Response nat "translation list option"

definition read_route :: "pouch \<Rightarrow> nat \<Rightarrow> response" where
  "read_route db n =
     (case loadHistory db n of
        Inl err \<Rightarrow> Response 404 None
      | Inr history \<Rightarrow> Response 200 (Some history))"

fun response_ok :: "response \<Rightarrow> bool" where
  "response_ok Rejected = False"
| "response_ok (Response status body) = (200 \<le> status \<and> status \<le> 299)"

fun fetchTranslations :: "response \<Rightarrow> translation list" where
  "fetchTranslations Rejected = []"
| "fetchTranslations (Response status body) =
     (if \<not> response_ok (Response status body) then []
      else (case body of None \<Rightarrow> [] | Some translations \<Rightarrow> translations))"

text \<open>The page after \<open>initializeGame\<close> has found too few words.\<close>

definition insufficient_page :: game where
  "insufficient_page =
     page_load\<lparr>message := ''Not enough words to play. Please save more words.'',
               container_disabled := True\<rparr>"

text \<open>Sample data: four stored translations, two of them with the same input text.\<close>

definition rec_b :: translation where
  "rec_b = \<lparr>doc_id = ''2'', input = ''b'', output' = ''u'', lang_in = ''en'', lang_out = ''fr''\<rparr>"

definition rec_c :: translation where
  "rec_c = \<lparr>doc_id = ''3'', input = ''c'', output' = ''v'', lang_in = ''en'', lang_out = ''fr''\<rparr>"

definition sample_translations :: "translation list" where
  "sample_translations = [rec_ax, rec_b, rec_ay, rec_c]"

text \<open>A sample round: the shuffle of the records reverses, the shuffle of the cards keeps the order.\<close>

definition sample_round :: game where
  "sample_round = initializeGame rev (\<lambda>cs. cs) sample_translations"

section \<open>Sample stores and a sample regular-expression engine\<close>

text \<open>
  What the specification asks of the history load, in its words: the \<open>n\<close>
  most-recently-stored records, fewer when fewer exist. \<open>put\<close> appends, so the
  most recent document is the last of \<open>docs\<close>.
\<close>

definition most_recently_stored :: "nat \<Rightarrow> pouch \<Rightarrow> translation list" where
  "most_recently_stored n db = take n (rev (docs db))"

text \<open>
  A store filled through \<open>saveTranslation\<close> alone: eleven different words saved
  one after the other into an empty store, and the store as it is after the first
  \<open>k\<close> of them.
\<close>

definition empty_store :: pouch where
  "empty_store = \<lparr>reachable = True, docs = []\<rparr>"

fun save_all :: "pouch \<Rightarrow> (string \<times> string) list \<Rightarrow> db_error + pouch" where
  "save_all db [] = Inr db"
| "save_all db (w # ws) =
     (case saveTranslation db (fst w) (snd w) ''en'' ''fr'' of
        Inl e \<Rightarrow> Inl e
      | Inr db' \<Rightarrow> save_all db' ws)"

definition eleven_words :: "(string \<times> string) list" where
  "eleven_words =
     [(''w0'', ''m0''), (''w1'', ''m1''), (''w2'', ''m2''), (''w3'', ''m3''), (''w4'', ''m4''),
      (''w5'', ''m5''), (''w6'', ''m6''), (''w7'', ''m7''), (''w8'', ''m8''), (''w9'', ''m9''),
      (''w10'', ''m10'')]"

definition entry :: "string \<Rightarrow> string \<Rightarrow> string \<Rightarrow> translation" where
  "entry i w m = \<lparr>doc_id = i, input = w, output' = m, lang_in = ''en'', lang_out = ''fr''\<rparr>"

definition eleven_docs :: "translation list" where
  "eleven_docs =
     [entry ''0'' ''w0'' ''m0'', entry ''1'' ''w1'' ''m1'', entry ''2'' ''w2'' ''m2'',
      entry ''3'' ''w3'' ''m3'', entry ''4'' ''w4'' ''m4'', entry ''5'' ''w5'' ''m5'',
      entry ''6'' ''w6'' ''m6'', entry ''7'' ''w7'' ''m7'', entry ''8'' ''w8'' ''m8'',
      entry ''9'' ''w9'' ''m9'', entry ''10'' ''w10'' ''m10'']"

definition stored :: "nat \<Rightarrow> pouch" where
  "stored k = \<lparr>reachable = True, docs = take k eleven_docs\<rparr>"

text \<open>
  A small regular-expression engine to run \<open>searchTranslations\<close> on examples. It
  covers patterns made of literal characters, \<open>.\<close> (any character but a line break)
  and a character or \<open>.\<close> followed by \<open>*\<close>, with the flag \<open>i\<close> for
  matching without regard to the case of the letters a to z; it reports every other
  pattern as an error, where JavaScript accepts many more.
\<close>

datatype atom = Lit char | AnyChar

definition syntax_char :: "char \<Rightarrow> bool" where
  "syntax_char c =
     (c \<in> set [CHR ''^'', CHR ''$'', CHR 0x5C, CHR ''.'', CHR ''*'', CHR ''+'', CHR ''?'',
               CHR ''('', CHR '')'', CHR ''['', CHR '']'', CHR ''{'', CHR ''}'', CHR ''|''])"

definition atom_of :: "char \<Rightarrow> atom" where
  "atom_of c = (if c = CHR ''.'' then AnyChar else Lit c)"

fun parse_pattern :: "string \<Rightarrow> (atom \<times> bool) list option" where
  "parse_pattern [] = Some []"
| "parse_pattern [c] =
     (if c \<noteq> CHR ''.'' \<and> syntax_char c then None else Some [(atom_of c, False)])"
| "parse_pattern (c # d # cs) =
     (if c \<noteq> CHR ''.'' \<and> syntax_char c then None
      else if d = CHR ''*'' then map_option ((#) (atom_of c, True)) (parse_pattern cs)
      else map_option ((#) (atom_of c, False)) (parse_pattern (d # cs)))"

definition fold_case :: "char \<Rightarrow> nat" where
  "fold_case c = (if 97 \<le> (of_char c :: nat) \<and> (of_char c :: nat) \<le> 122
                  then of_char c - 32 else of_char c)"

fun atom_matches :: "bool \<Rightarrow> atom \<Rightarrow> char \<Rightarrow> bool" where
  "atom_matches ignoreCase AnyChar c = (c \<noteq> CHR 0x0A \<and> c \<noteq> CHR 0x0D)"
| "atom_matches ignoreCase (Lit a) c = (if ignoreCase then fold_case a = fold_case c else a = c)"

fun match_here :: "bool \<Rightarrow> (atom \<times> bool) list \<Rightarrow> string \<Rightarrow> bool" where
  "match_here ic [] str = True"
| "match_here ic ((a, False) # r) [] = False"
| "match_here ic ((a, False) # r) (c # cs) = (atom_matches ic a c \<and> match_here ic r cs)"
| "match_here ic ((a, True) # r) [] = match_here ic r []"
| "match_here ic ((a, True) # r) (c # cs) =
     (match_here ic r (c # cs) \<or> (atom_matches ic a c \<and> match_here ic ((a, True) # r) cs))"

fun match_anywhere :: "bool \<Rightarrow> (atom \<times> bool) list \<Rightarrow> string \<Rightarrow> bool" where
  "match_anywhere ic r [] = match_here ic r []"
| "match_anywhere ic r (c # cs) = (match_here ic r (c # cs) \<or> match_anywhere ic r cs)"

definition sample_RegExp :: "string \<Rightarrow> string \<Rightarrow> (bool \<times> (atom \<times> bool) list) option" where
  "sample_RegExp pattern flags =
     map_option (Pair (CHR ''i'' \<in> set flags)) (parse_pattern pattern)"

definition sample_test :: "bool \<times> (atom \<times> bool) list \<Rightarrow> string \<Rightarrow> bool" where
  "sample_test regex str = match_anywhere (fst regex) (snd regex) str"

definition search_docs :: "translation list" where
  "search_docs =
     [entry ''0'' ''abc'' ''x'', entry ''1'' ''a.c'' ''y'', entry ''2'' ''xABCx'' ''z'',
      entry ''3'' ''ac'' ''u'', entry ''4'' ''xyz'' ''v'']"

section \<open>Properties of the Map\<close>

lemma map_set_keys:
  "map fst (map_set k v m) = (if k \<in> fst ` set m then map fst m else map fst m @ [k])"
  by (induction m) auto

lemma map_set_lookup:
  "map_of (map_set k v m) = (map_of m)(k \<mapsto> v)"
  by (induction m) (auto simp: fun_eq_iff)

lemma map_set_distinct:
  "distinct (map fst m) \<Longrightarrow> distinct (map fst (map_set k v m))"
  by (simp add: map_set_keys)

lemma foldl_map_set_lookup:
  "map_of (foldl (\<lambda>m e. map_set (fst e) (snd e) m) m es) = map_of m ++ map_of (rev es)"
proof (induction es arbitrary: m)
  case Nil
  show ?case by simp
next
  case (Cons e es)
  have "map_of (foldl (\<lambda>m e. map_set (fst e) (snd e) m) m (e # es))
        = map_of (map_set (fst e) (snd e) m) ++ map_of (rev es)"
    using Cons.IH by simp
  also have "\<dots> = map_of m ++ map_of (rev (e # es))"
    by (cases e) (simp add: map_set_lookup map_add_upd_left fun_eq_iff map_add_def split: option.splits)
  finally show ?case .
qed

lemma foldl_map_set_distinct:
  "distinct (map fst m) \<Longrightarrow> distinct (map fst (foldl (\<lambda>m e. map_set (fst e) (snd e) m) m es))"
  by (induction es arbitrary: m) (simp_all add: map_set_distinct)

lemma map_set_key_set: "fst ` set (map_set k v m) = insert k (fst ` set m)"
  by (induction m) auto

lemma foldl_map_set_keys:
  "fst ` set (foldl (\<lambda>m e. map_set (fst e) (snd e) m) m es) = fst ` set m \<union> fst ` set es"
  by (induction es arbitrary: m) (simp_all add: map_set_key_set)

lemma new_Map_distinct: "distinct (map fst (new_Map es))"
  unfolding new_Map_def by (rule foldl_map_set_distinct) simp

lemma new_Map_lookup: "map_of (new_Map es) = map_of (rev es)"
  unfolding new_Map_def by (simp add: foldl_map_set_lookup)

lemma new_Map_keys: "fst ` set (new_Map es) = fst ` set es"
  unfolding new_Map_def by (simp add: foldl_map_set_keys)

lemma removeAll_filter_conv: "removeAll k (filter P xs) = filter (\<lambda>x. P x \<and> x \<noteq> k) xs"
  by (induction xs) auto

lemma foldl_map_set_order:
  "map fst (foldl (\<lambda>m e. map_set (fst e) (snd e) m) m es)
   = map fst m @ first_occurrences (filter (\<lambda>k. k \<notin> fst ` set m) (map fst es))"
proof (induction es arbitrary: m)
  case Nil
  show ?case by simp
next
  case (Cons e es)
  show ?case
  proof (cases "fst e \<in> fst ` set m")
    case True
    then show ?thesis using Cons.IH [of "map_set (fst e) (snd e) m"]
      by (simp add: map_set_keys map_set_key_set insert_absorb)
  next
    case False
    show ?thesis using False Cons.IH [of "map_set (fst e) (snd e) m"]
      by (simp add: map_set_keys map_set_key_set removeAll_filter_conv conj_commute)
  qed
qed

lemma new_Map_order: "map fst (new_Map es) = first_occurrences (map fst es)"
  unfolding new_Map_def by (simp add: foldl_map_set_order)

lemma map_of_keyed: "map_of (map (\<lambda>r. (f r, r)) xs) k = find (\<lambda>r. f r = k) xs"
  by (induction xs) auto

lemma unique_inputs: "map input (uniqueTranslations ts) = first_occurrences (map input ts)"
proof -
  let ?es = "map (\<lambda>item. (input item, item)) ts"
  have snd_fst: "\<And>k v. (k, v) \<in> set (new_Map ?es) \<Longrightarrow> input v = k"
  proof -
    fix k v assume kv: "(k, v) \<in> set (new_Map ?es)"
    then have "map_of (new_Map ?es) k = Some v" using new_Map_distinct [of ?es] by simp
    then have "map_of (rev ?es) k = Some v" by (simp add: new_Map_lookup)
    then have "(k, v) \<in> set ?es" by (metis map_of_SomeD set_rev)
    then show "input v = k" by auto
  qed
  have "map input (map snd (new_Map ?es)) = map fst (new_Map ?es)"
    using snd_fst by (auto simp: comp_def)
  then show ?thesis
    by (simp add: uniqueTranslations_def map_values_def new_Map_order comp_def)
qed

lemma unique_keeps_last:
  assumes "t \<in> set (uniqueTranslations ts)"
  shows "last_with_input (input t) ts = Some t"
proof -
  let ?es = "map (\<lambda>item. (input item, item)) ts"
  from assms obtain k where kv: "(k, t) \<in> set (new_Map ?es)"
    by (auto simp: uniqueTranslations_def map_values_def)
  then have "map_of (new_Map ?es) k = Some t" using new_Map_distinct [of ?es] by simp
  then have m: "map_of (rev ?es) k = Some t" by (simp add: new_Map_lookup)
  then have "(k, t) \<in> set ?es" by (metis map_of_SomeD set_rev)
  then have k: "k = input t" by auto
  have "map_of (map (\<lambda>r. (input r, r)) (rev ts)) k = Some t" using m by (simp add: rev_map)
  then show ?thesis unfolding last_with_input_def k by (simp add: map_of_keyed)
qed

lemma length_unique: "length (uniqueTranslations ts) = card (input ` set ts)"
proof -
  let ?es = "map (\<lambda>item. (input item, item)) ts"
  have "length (uniqueTranslations ts) = length (map fst (new_Map ?es))"
    by (simp add: uniqueTranslations_def map_values_def)
  also have "\<dots> = card (set (map fst (new_Map ?es)))"
    using distinct_card [OF new_Map_distinct [of ?es]] by simp
  also have "\<dots> = card (input ` set ts)"
    by (simp add: new_Map_keys image_image)
  finally show ?thesis .
qed

section \<open>Deduplication of the records\<close>

lemma unique_distinct_inputs: "distinct (map input (uniqueTranslations ts))"
proof -
  let ?es = "map (\<lambda>item. (input item, item)) ts"
  have "\<And>k v. (k, v) \<in> set (new_Map ?es) \<Longrightarrow> input v = k"
  proof -
    fix k v assume kv: "(k, v) \<in> set (new_Map ?es)"
    then have "map_of (new_Map ?es) k = Some v" using new_Map_distinct [of ?es] by simp
    then have "map_of (rev ?es) k = Some v" by (simp add: new_Map_lookup)
    then have "(k, v) \<in> set ?es" by (metis map_of_SomeD set_rev)
    then show "input v = k" by auto
  qed
  then have "map input (map snd (new_Map ?es)) = map fst (new_Map ?es)"
    by (auto simp: comp_def)
  then have "map input (uniqueTranslations ts) = map fst (new_Map ?es)"
    by (simp add: uniqueTranslations_def map_values_def)
  then show ?thesis
    by (simp only: new_Map_distinct)
qed

lemma find_in_set: "find P xs = Some x \<Longrightarrow> x \<in> set xs \<and> P x"
  by (induction xs) (auto split: if_splits)

text \<open>
  C6, as the specification states it: of the records that share an input text the first
  one survives. The \<open>Map\<close> keeps the last one.
\<close>

theorem dedup_first_occurrence_counterexample:
  "uniqueTranslations [rec_ax, rec_ay] = [rec_ay]
   \<and> first_with_input (input rec_ay) [rec_ax, rec_ay] = Some rec_ax
   \<and> rec_ax \<noteq> rec_ay"
  by (simp add: uniqueTranslations_def new_Map_def map_values_def rec_ax_def rec_ay_def
      first_with_input_def)

text \<open>
  C6, amended: the deduplication lists the distinct input texts in order of first
  occurrence, and the record kept for an input text is the last record of the sequence
  with that input.
\<close>

theorem dedup_keeps_last_occurrence:
  "map input (uniqueTranslations ts) = first_occurrences (map input ts)
   \<and> (\<forall>t \<in> set (uniqueTranslations ts). last_with_input (input t) ts = Some t)"
  using unique_inputs unique_keeps_last by blast

theorem dedup_keeps_last_occurrence_witness:
  "rec_ay \<in> set (uniqueTranslations sample_translations)
   \<and> map input (uniqueTranslations sample_translations) = [''a'', ''b'', ''c'']
   \<and> last_with_input (input rec_ay) sample_translations = Some rec_ay"
proof -
  have m: "rec_ay \<in> set (uniqueTranslations sample_translations)"
    by (simp add: uniqueTranslations_def new_Map_def map_values_def sample_translations_def
        rec_ax_def rec_ay_def rec_b_def rec_c_def)
  have f: "first_occurrences (map input sample_translations) = [''a'', ''b'', ''c'']"
    by (simp add: sample_translations_def rec_ax_def rec_ay_def rec_b_def rec_c_def)
  show ?thesis
    using dedup_keeps_last_occurrence [of sample_translations] m f by simp
qed

section \<open>Pair selection\<close>

lemma shuffle_distinct_map:
  assumes "is_shuffle sh" "distinct (map f xs)"
  shows "distinct (map f (sh xs))"
proof -
  have "mset (sh xs) = mset xs" using assms(1) by (simp add: is_shuffle_def)
  then have "mset (map f (sh xs)) = mset (map f xs)" by simp
  then show ?thesis using assms(2) by (metis mset_eq_imp_distinct_iff)
qed

lemma shuffle_length: "is_shuffle sh \<Longrightarrow> length (sh xs) = length xs"
  by (metis is_shuffle_def size_mset)

lemma shuffle_set: "is_shuffle sh \<Longrightarrow> set (sh xs) = set xs"
  by (metis is_shuffle_def set_mset_mset)

lemma is_shuffle_rev: "is_shuffle rev"
  by (simp add: is_shuffle_def)

text \<open>
  C7: with at least three distinct input texts the selection has exactly
  \<open>min 6 (max 3 n)\<close> records, \<open>n\<close> the number of distinct input texts, hence
  between three and six; they are records of the deduplicated set, with pairwise
  different input texts, and no record is selected twice.
\<close>

theorem selected_pairs_count_distinct:
  assumes "is_shuffle shuffleT" and "3 \<le> card (input ` set ts)"
  shows "length (selectedTranslations shuffleT ts) = min 6 (max 3 (card (input ` set ts)))
         \<and> 3 \<le> length (selectedTranslations shuffleT ts)
         \<and> length (selectedTranslations shuffleT ts) \<le> 6
         \<and> set (selectedTranslations shuffleT ts) \<subseteq> set (uniqueTranslations ts)
         \<and> distinct (map input (selectedTranslations shuffleT ts))
         \<and> distinct (selectedTranslations shuffleT ts)"
proof -
  let ?u = "uniqueTranslations ts"
  let ?sel = "selectedTranslations shuffleT ts"
  have n: "length ?u = card (input ` set ts)" by (rule length_unique)
  have len: "length ?sel = min 6 (max 3 (length ?u))"
    using assms n
    by (simp add: selectedTranslations_def getRandomSubset_def numPairs_def shuffle_length)
  have sub: "set ?sel \<subseteq> set ?u"
    using assms(1) set_take_subset [of "numPairs ?u" "shuffleT ?u"]
    by (simp add: selectedTranslations_def getRandomSubset_def shuffle_set)
  have "distinct (map input (shuffleT ?u))"
    using assms(1) unique_distinct_inputs by (rule shuffle_distinct_map)
  then have d: "distinct (map input ?sel)"
    by (simp add: selectedTranslations_def getRandomSubset_def take_map [symmetric])
  then have "distinct ?sel" by (simp add: distinct_map)
  with len sub d n assms(2) show ?thesis by simp
qed

theorem selected_pairs_count_distinct_witness:
  "is_shuffle (rev :: translation list \<Rightarrow> translation list)
   \<and> 3 \<le> card (input ` set sample_translations)
   \<and> selectedTranslations rev sample_translations = [rec_c, rec_b, rec_ay]
   \<and> length (selectedTranslations rev sample_translations) = 3"
proof -
  have c: "input ` set sample_translations = {''a'', ''b'', ''c''}"
    by (auto simp: sample_translations_def rec_ax_def rec_ay_def rec_b_def rec_c_def)
  have c3: "3 \<le> card (input ` set sample_translations)"
    unfolding c by simp
  have v: "selectedTranslations rev sample_translations = [rec_c, rec_b, rec_ay]"
    by (simp add: selectedTranslations_def getRandomSubset_def numPairs_def
        uniqueTranslations_def new_Map_def map_values_def sample_translations_def
        rec_ax_def rec_ay_def rec_b_def rec_c_def)
  show ?thesis
    using selected_pairs_count_distinct [OF is_shuffle_rev c3] is_shuffle_rev c3 v by simp
qed

section \<open>Card shapes under the game's updates\<close>

lemma filter_update_length:
  "i < length cs \<Longrightarrow>
   length (filter P (cs[i := x])) + (if P (cs ! i) then 1 else 0)
   = length (filter P cs) + (if P x then 1 else 0)"
proof (induction cs arbitrary: i)
  case Nil
  then show ?case by simp
next
  case (Cons c cs)
  show ?case
  proof (cases i)
    case 0
    then show ?thesis by simp
  next
    case (Suc k)
    then have "k < length cs" using Cons.prems by simp
    from Cons.IH [OF this] show ?thesis using Suc by simp
  qed
qed

lemma box_shapes_exclusive:
  "hidden_box c \<Longrightarrow> \<not> matched_box c"
  "revealed_box c \<Longrightarrow> \<not> matched_box c"
  "revealed_box c \<Longrightarrow> \<not> hidden_box c"
  "initial_box c \<Longrightarrow> \<not> matched_box c"
  by (auto simp: hidden_box_def matched_box_def revealed_box_def initial_box_def)

lemma card_state_shapes:
  "initial_box c \<Longrightarrow> card_state c = Initial"
  "hidden_box c \<Longrightarrow> card_state c = Hidden"
  "revealed_box c \<Longrightarrow> card_state c = Revealed"
  "matched_box c \<Longrightarrow> card_state c = Matched"
  by (auto simp: hidden_box_def matched_box_def revealed_box_def initial_box_def card_state_def)

lemma reveal_hidden: "hidden_box c \<Longrightarrow> revealed_box (reveal c)"
  by (simp add: hidden_box_def revealed_box_def reveal_def cl_add_def cl_remove_def)

lemma conceal_revealed: "revealed_box c \<Longrightarrow> hidden_box (conceal c)"
  by (simp add: hidden_box_def revealed_box_def conceal_def cl_add_def cl_remove_def)

lemma mark_revealed: "revealed_box c \<Longrightarrow> matched_box (mark_matched c)"
  by (simp add: matched_box_def revealed_box_def mark_matched_def cl_add_def)

lemma start_initial: "initial_box c \<Longrightarrow> hidden_box ((hide_initial c)\<lparr>onclick := True\<rparr>)"
  by (simp add: hidden_box_def initial_box_def hide_initial_def cl_add_def cl_remove_def)

lemma boxes_ok_reveal:
  assumes "boxes_ok A cs" "i < length cs" "hidden_box (cs ! i)"
  shows "boxes_ok (insert i A) (cs[i := reveal (cs ! i)])"
  using assms unfolding boxes_ok_def
  by (auto simp: nth_list_update reveal_hidden)

lemma boxes_ok_conceal:
  assumes "boxes_ok A cs" "i < length cs" "i \<in> A"
  shows "boxes_ok (A - {i}) (cs[i := conceal (cs ! i)])"
  using assms unfolding boxes_ok_def
  by (auto simp: nth_list_update conceal_revealed)

lemma boxes_ok_mark:
  assumes "boxes_ok A cs" "i < length cs" "i \<in> A"
  shows "boxes_ok (A - {i}) (cs[i := mark_matched (cs ! i)])"
  using assms unfolding boxes_ok_def
  by (auto simp: nth_list_update mark_revealed)

lemma boxes_ok_nth:
  "boxes_ok A cs \<Longrightarrow> j < length cs \<Longrightarrow> j \<in> A \<Longrightarrow> revealed_box (cs ! j)"
  "boxes_ok A cs \<Longrightarrow> j < length cs \<Longrightarrow> j \<notin> A \<Longrightarrow> hidden_box (cs ! j) \<or> matched_box (cs ! j)"
  by (auto simp: boxes_ok_def)

lemma boxes_ok_clickable:
  "boxes_ok A cs \<Longrightarrow> j < length cs \<Longrightarrow> j \<notin> A \<Longrightarrow> onclick (cs ! j) \<Longrightarrow> hidden_box (cs ! j)"
  by (auto simp: boxes_ok_def matched_box_def)

lemma count_reveal:
  assumes "i < length cs" "hidden_box (cs ! i)"
  shows "length (filter matched_box (cs[i := reveal (cs ! i)])) = length (filter matched_box cs)"
  using filter_update_length [OF assms(1), of matched_box "reveal (cs ! i)"]
    box_shapes_exclusive(1) [OF assms(2)] box_shapes_exclusive(2) [OF reveal_hidden [OF assms(2)]]
  by simp

lemma count_conceal:
  assumes "i < length cs" "revealed_box (cs ! i)"
  shows "length (filter matched_box (cs[i := conceal (cs ! i)])) = length (filter matched_box cs)"
  using filter_update_length [OF assms(1), of matched_box "conceal (cs ! i)"]
    box_shapes_exclusive(2) [OF assms(2)] box_shapes_exclusive(1) [OF conceal_revealed [OF assms(2)]]
  by simp

lemma count_mark:
  assumes "i < length cs" "revealed_box (cs ! i)"
  shows "length (filter matched_box (cs[i := mark_matched (cs ! i)])) = Suc (length (filter matched_box cs))"
  using filter_update_length [OF assms(1), of matched_box "mark_matched (cs ! i)"]
    box_shapes_exclusive(2) [OF assms(2)] mark_revealed [OF assms(2)]
  by simp

section \<open>The transitions keep the invariant\<close>

lemma clearTimeout_fields [simp]:
  "cards (clearTimeout h s) = cards s"
  "firstCard (clearTimeout h s) = firstCard s"
  "secondCard (clearTimeout h s) = secondCard s"
  "lockBoard (clearTimeout h s) = lockBoard s"
  "matchedCount (clearTimeout h s) = matchedCount s"
  "winnerMessage_display (clearTimeout h s) = winnerMessage_display s"
  "resetButton_display (clearTimeout h s) = resetButton_display s"
  "next_timer (clearTimeout h s) = next_timer s"
  by (simp_all add: clearTimeout_def split: option.splits)

lemma clearTimeout_timers:
  "timers s = [] \<Longrightarrow> timers (clearTimeout h s) = []"
  "timers s = [(t, d, cb)] \<Longrightarrow> timers (clearTimeout (Some t) s) = []"
  by (simp_all add: clearTimeout_def split: option.splits)

lemma waiting_click: "waiting s \<Longrightarrow> step s (Click i) = Inr s"
  by (auto simp: waiting_def list_all_length initial_box_def)

lemma filter_none: "\<forall>c \<in> set cs. \<not> P c \<Longrightarrow> filter P cs = []"
  by (induction cs) auto

lemma waiting_start:
  assumes "waiting s"
  shows "playing (startGame (s\<lparr>timers := []\<rparr>))"
proof -
  let ?cs = "map (\<lambda>b. (hide_initial b)\<lparr>onclick := True\<rparr>) (cards s)"
  have all: "\<forall>c \<in> set ?cs. hidden_box c"
    using assms by (auto simp: waiting_def list_all_iff start_initial)
  then have "\<forall>c \<in> set ?cs. \<not> matched_box c" using box_shapes_exclusive(1) by blast
  then have f: "filter matched_box ?cs = []" by (rule filter_none)
  have b: "boxes_ok {} ?cs" using all by (simp add: boxes_ok_def)
  have ne: "cards s \<noteq> []" using assms by (simp add: waiting_def)
  show ?thesis
    using assms f b ne
    by (simp add: playing_def count_ok_def startGame_def waiting_def)
qed

lemma waiting_timeout:
  assumes "waiting s"
  shows "\<exists>s'. step s (Timeout t) = Inr s' \<and> round_inv s'"
proof -
  from assms obtain t0 where t0: "timers s = [(t0, 4000, StartGame)]"
    by (auto simp: waiting_def)
  show ?thesis
  proof (cases "t = t0")
    case True
    then have "step s (Timeout t) = Inr (startGame (s\<lparr>timers := []\<rparr>))"
      using t0 by simp
    then show ?thesis using waiting_start [OF assms] by (simp add: round_inv_def)
  next
    case False
    then have "step s (Timeout t) = Inr s" using t0 by simp
    then show ?thesis using assms by (simp add: round_inv_def)
  qed
qed

lemma flipCard_first:
  assumes "\<not> lockBoard s" "firstCard s = None"
  shows "flipCard i s =
     (clearTimeout (flipTimer s) s)
       \<lparr>cards := (cards s)[i := reveal (cards s ! i)], firstCard := Some i,
        timers := timers (clearTimeout (flipTimer s) s) @ [(next_timer s, 2000, AutoHide)],
        next_timer := Suc (next_timer s), flipTimer := Some (next_timer s)\<rparr>"
  using assms by (simp add: flipCard_def Let_def update_card_def setTimeout_def)

lemma playing_first_click:
  assumes "playing s" "firstCard s = None" "i < length (cards s)" "onclick (cards s ! i)"
  shows "playing (flipCard i s)"
proof -
  from assms(1,2) have c: "count_ok s" and nl: "\<not> lockBoard s" and sc: "secondCard s = None"
    and tm: "timers s = []" and b: "boxes_ok {} (cards s)"
    by (simp_all add: playing_def)
  have h: "hidden_box (cards s ! i)" using boxes_ok_clickable [OF b assms(3) _ assms(4)] by simp
  have b': "boxes_ok {i} ((cards s)[i := reveal (cards s ! i)])"
    using boxes_ok_reveal [OF b assms(3) h] by simp
  have n: "length (filter matched_box ((cards s)[i := reveal (cards s ! i)])) = length (filter matched_box (cards s))"
    by (rule count_reveal [OF assms(3) h])
  show ?thesis
    unfolding flipCard_first [OF nl assms(2)]
    using c sc nl b' n assms(3) clearTimeout_timers(1) [OF tm]
    by (simp add: playing_def count_ok_def)
qed

lemma flipCard_second_match:
  assumes "\<not> lockBoard s" "firstCard s = Some f" "i \<noteq> f"
    "pairKey (dataset_id (cards s ! f)) = pairKey (dataset_id (cards s ! i))"
    "f < length (cards s)" "i < length (cards s)"
  shows "flipCard i s =
     (clearTimeout (flipTimer s) s)
       \<lparr>cards := (cards s)[i := reveal (cards s ! i), f := mark_matched (cards s ! f),
                            i := mark_matched (reveal (cards s ! i))],
        firstCard := None, secondCard := None, lockBoard := False,
        matchedCount := matchedCount s + 2,
        winnerMessage_display := (if matchedCount s + 2 = length (cards s) then True
                                  else winnerMessage_display s),
        resetButton_display := (if matchedCount s + 2 = length (cards s) then True
                                  else resetButton_display s)\<rparr>"
  using assms
  by (simp add: flipCard_def Let_def update_card_def second_selection_def resetBoard_def
      reveal_def nth_list_update)

lemma flipCard_second_mismatch:
  assumes "\<not> lockBoard s" "firstCard s = Some f" "i \<noteq> f"
    "pairKey (dataset_id (cards s ! f)) \<noteq> pairKey (dataset_id (cards s ! i))"
    "f < length (cards s)" "i < length (cards s)"
  shows "flipCard i s =
     (clearTimeout (flipTimer s) s)
       \<lparr>cards := (cards s)[i := reveal (cards s ! i)],
        secondCard := Some i, lockBoard := True,
        timers := timers (clearTimeout (flipTimer s) s) @ [(next_timer s, 500, MismatchHide)],
        next_timer := Suc (next_timer s)\<rparr>"
  using assms
  by (simp add: flipCard_def Let_def update_card_def second_selection_def setTimeout_def
      reveal_def nth_list_update)

lemma match_cards:
  assumes "boxes_ok {f} cs" "f < length cs" "i < length cs" "i \<noteq> f" "hidden_box (cs ! i)"
  shows "boxes_ok {} (cs[i := reveal (cs ! i), f := mark_matched (cs ! f),
                          i := mark_matched (reveal (cs ! i))])"
    and "length (filter matched_box (cs[i := reveal (cs ! i), f := mark_matched (cs ! f),
                          i := mark_matched (reveal (cs ! i))]))
         = length (filter matched_box cs) + 2"
proof -
  let ?cs1 = "cs[i := reveal (cs ! i)]"
  let ?cs2 = "?cs1[f := mark_matched (?cs1 ! f)]"
  let ?cs3 = "?cs2[i := mark_matched (?cs2 ! i)]"
  have e1: "?cs1 ! f = cs ! f" using assms(4) by simp
  have e2: "?cs2 ! i = reveal (cs ! i)" using assms(3,4) by simp
  have eq: "cs[i := reveal (cs ! i), f := mark_matched (cs ! f),
               i := mark_matched (reveal (cs ! i))] = ?cs3"
    using assms(3,4) by simp
  have b1: "boxes_ok {i, f} ?cs1" using boxes_ok_reveal [OF assms(1,3,5)] by simp
  have l1: "f < length ?cs1" and l1': "i < length ?cs1" using assms(2,3) by simp_all
  have b2: "boxes_ok {i} ?cs2"
    using boxes_ok_mark [OF b1 l1] assms(4) by (simp add: insert_Diff_if)
  have l2: "i < length ?cs2" using assms(3) by simp
  have b3: "boxes_ok {} ?cs3" using boxes_ok_mark [OF b2 l2] by simp
  have r1: "revealed_box (?cs1 ! f)" using boxes_ok_nth(1) [OF b1 l1] by simp
  have r2: "revealed_box (?cs2 ! i)" using boxes_ok_nth(1) [OF b2 l2] by simp
  have c1: "length (filter matched_box ?cs1) = length (filter matched_box cs)"
    by (rule count_reveal [OF assms(3,5)])
  have c2: "length (filter matched_box ?cs2) = Suc (length (filter matched_box ?cs1))"
    by (rule count_mark [OF l1 r1])
  have c3: "length (filter matched_box ?cs3) = Suc (length (filter matched_box ?cs2))"
    by (rule count_mark [OF l2 r2])
  show "boxes_ok {} (cs[i := reveal (cs ! i), f := mark_matched (cs ! f),
                          i := mark_matched (reveal (cs ! i))])"
    using b3 by (simp only: eq)
  show "length (filter matched_box (cs[i := reveal (cs ! i), f := mark_matched (cs ! f),
                          i := mark_matched (reveal (cs ! i))]))
         = length (filter matched_box cs) + 2"
    using c1 c2 c3 by (simp add: eq)
qed

lemma unmatched_count_less:
  assumes "j < length cs" "\<not> matched_box (cs ! j)"
  shows "length (filter matched_box cs) < length cs"
  using assms length_filter_less [of "cs ! j" cs matched_box] by simp

text \<open>The parts of \<open>playing\<close> when a first card is selected and no second.\<close>

lemma playing_one_selected:
  assumes "playing s" "firstCard s = Some f" "\<not> lockBoard s"
  shows "count_ok s" "f < length (cards s)" "secondCard s = None"
    "\<exists>t. flipTimer s = Some t \<and> timers s = [(t, 2000, AutoHide)]" "boxes_ok {f} (cards s)"
  using assms by (auto simp: playing_def split: option.splits)

lemma playing_locked:
  assumes "playing s" "lockBoard s"
  shows "\<exists>f g t. firstCard s = Some f \<and> secondCard s = Some g \<and> f \<noteq> g
           \<and> f < length (cards s) \<and> g < length (cards s)
           \<and> timers s = [(t, 500, MismatchHide)] \<and> boxes_ok {f, g} (cards s)"
  using assms by (auto simp: playing_def split: option.splits)

lemma playing_match_click:
  assumes "playing s" "firstCard s = Some f" "\<not> lockBoard s" "i \<noteq> f"
    "i < length (cards s)" "onclick (cards s ! i)"
    "pairKey (dataset_id (cards s ! f)) = pairKey (dataset_id (cards s ! i))"
  shows "playing (flipCard i s)"
proof -
  note p = playing_one_selected [OF assms(1,2,3)]
  from p(4) obtain t where t: "flipTimer s = Some t" "timers s = [(t, 2000, AutoHide)]" by blast
  have h: "hidden_box (cards s ! i)"
    using boxes_ok_clickable [OF p(5) assms(5) _ assms(6)] assms(4) by simp
  note m = match_cards [OF p(5) p(2) assms(5) assms(4) h]
  have "\<not> matched_box (cards s ! f)"
    using boxes_ok_nth(1) [OF p(5) p(2)] box_shapes_exclusive(2) by simp
  then have less: "length (filter matched_box (cards s)) < length (cards s)"
    using unmatched_count_less [OF p(2)] by simp
  have tm: "timers (clearTimeout (flipTimer s) s) = []"
    using clearTimeout_timers(2) [OF t(2)] t(1) by simp
  show ?thesis
    unfolding flipCard_second_match [OF assms(3,2,4,7) p(2) assms(5)]
    using p(1) m less tm
    by (simp add: playing_def count_ok_def)
qed

lemma playing_mismatch_click:
  assumes "playing s" "firstCard s = Some f" "\<not> lockBoard s" "i \<noteq> f"
    "i < length (cards s)" "onclick (cards s ! i)"
    "pairKey (dataset_id (cards s ! f)) \<noteq> pairKey (dataset_id (cards s ! i))"
  shows "playing (flipCard i s)"
proof -
  note p = playing_one_selected [OF assms(1,2,3)]
  from p(4) obtain t where t: "flipTimer s = Some t" "timers s = [(t, 2000, AutoHide)]" by blast
  have h: "hidden_box (cards s ! i)"
    using boxes_ok_clickable [OF p(5) assms(5) _ assms(6)] assms(4) by simp
  have b: "boxes_ok {f, i} ((cards s)[i := reveal (cards s ! i)])"
    using boxes_ok_reveal [OF p(5) assms(5) h] by (simp add: insert_commute)
  have n: "length (filter matched_box ((cards s)[i := reveal (cards s ! i)]))
           = length (filter matched_box (cards s))"
    by (rule count_reveal [OF assms(5) h])
  have tm: "timers (clearTimeout (flipTimer s) s) = []"
    using clearTimeout_timers(2) [OF t(2)] t(1) by simp
  show ?thesis
    unfolding flipCard_second_mismatch [OF assms(3,2,4,7) p(2) assms(5)]
    using p(1) p(2) b n tm assms(2,4,5)
    by (simp add: playing_def count_ok_def)
qed

lemma playing_click:
  assumes "playing s"
  shows "\<exists>s'. step s (Click i) = Inr s' \<and> playing s'"
proof (cases "i < length (cards s) \<and> onclick (cards s ! i)")
  case False
  then show ?thesis using assms by auto
next
  case True
  then have st: "step s (Click i) = Inr (flipCard i s)" by simp
  show ?thesis
  proof (cases "lockBoard s \<or> firstCard s = Some i")
    case True
    then have "flipCard i s = s" by (simp add: flipCard_def)
    then show ?thesis using st assms by simp
  next
    case False
    then have nl: "\<not> lockBoard s" and ni: "firstCard s \<noteq> Some i" by simp_all
    show ?thesis
    proof (cases "firstCard s")
      case None
      then show ?thesis using st playing_first_click [OF assms None] True by simp
    next
      case (Some f)
      then have "i \<noteq> f" using ni by simp
      then show ?thesis
        using st True playing_match_click [OF assms Some nl] playing_mismatch_click [OF assms Some nl]
        by (cases "pairKey (dataset_id (cards s ! f)) = pairKey (dataset_id (cards s ! i))") simp_all
    qed
  qed
qed

lemma playing_none_selected:
  assumes "playing s" "firstCard s = None"
  shows "count_ok s" "secondCard s = None" "\<not> lockBoard s" "timers s = []"
    "boxes_ok {} (cards s)"
  using assms by (simp_all add: playing_def)

lemma autoHide_fires:
  assumes "playing s" "firstCard s = Some f" "\<not> lockBoard s"
    "timers s = [(t, 2000, AutoHide)]"
  shows "step s (Timeout t) =
           Inr (s\<lparr>timers := [], cards := (cards s)[f := conceal (cards s ! f)],
                  firstCard := None\<rparr>)"
    and "playing (s\<lparr>timers := [], cards := (cards s)[f := conceal (cards s ! f)],
                  firstCard := None\<rparr>)"
proof -
  note p = playing_one_selected [OF assms(1,2,3)]
  show "step s (Timeout t) =
           Inr (s\<lparr>timers := [], cards := (cards s)[f := conceal (cards s ! f)],
                  firstCard := None\<rparr>)"
    using assms(2,4) by (simp add: autoHide_def update_card_def)
  have r: "revealed_box (cards s ! f)" using boxes_ok_nth(1) [OF p(5) p(2)] by simp
  have b: "boxes_ok {} ((cards s)[f := conceal (cards s ! f)])"
    using boxes_ok_conceal [OF p(5) p(2)] by simp
  have n: "length (filter matched_box ((cards s)[f := conceal (cards s ! f)]))
           = length (filter matched_box (cards s))"
    by (rule count_conceal [OF p(2) r])
  show "playing (s\<lparr>timers := [], cards := (cards s)[f := conceal (cards s ! f)],
                  firstCard := None\<rparr>)"
    using p(1,3) assms(3) b n by (simp add: playing_def count_ok_def)
qed

lemma mismatch_cards:
  assumes "boxes_ok {f, g} cs" "f < length cs" "g < length cs" "f \<noteq> g"
  shows "boxes_ok {} (cs[f := conceal (cs ! f), g := conceal (cs ! g)])"
    and "length (filter matched_box (cs[f := conceal (cs ! f), g := conceal (cs ! g)]))
         = length (filter matched_box cs)"
proof -
  let ?cs1 = "cs[f := conceal (cs ! f)]"
  have e: "?cs1 ! g = cs ! g" using assms(4) by simp
  have b1: "boxes_ok {g} ?cs1"
    using boxes_ok_conceal [OF assms(1,2)] assms(4) by (simp add: insert_Diff_if)
  have l: "g < length ?cs1" using assms(3) by simp
  have b2: "boxes_ok {} (?cs1[g := conceal (?cs1 ! g)])"
    using boxes_ok_conceal [OF b1 l] by simp
  then show "boxes_ok {} (cs[f := conceal (cs ! f), g := conceal (cs ! g)])"
    by (simp only: e)
  have r1: "revealed_box (cs ! f)" using boxes_ok_nth(1) [OF assms(1,2)] by simp
  have r2: "revealed_box (?cs1 ! g)" using boxes_ok_nth(1) [OF b1 l] by simp
  have "length (filter matched_box (?cs1[g := conceal (?cs1 ! g)]))
        = length (filter matched_box cs)"
    using count_conceal [OF l r2] count_conceal [OF assms(2) r1] by simp
  then show "length (filter matched_box (cs[f := conceal (cs ! f), g := conceal (cs ! g)]))
         = length (filter matched_box cs)"
    by (simp only: e)
qed

lemma mismatchHide_fires:
  assumes "playing s" "firstCard s = Some f" "secondCard s = Some g"
    "timers s = [(t, 500, MismatchHide)]"
  shows "step s (Timeout t) =
           Inr (s\<lparr>timers := [],
                  cards := (cards s)[f := conceal (cards s ! f), g := conceal (cards s ! g)],
                  firstCard := None, secondCard := None, lockBoard := False\<rparr>)"
    and "playing (s\<lparr>timers := [],
                  cards := (cards s)[f := conceal (cards s ! f), g := conceal (cards s ! g)],
                  firstCard := None, secondCard := None, lockBoard := False\<rparr>)"
proof -
  from assms(1,2,3) have c: "count_ok s" and fl: "f < length (cards s)"
    and gl: "g < length (cards s)" and ne: "f \<noteq> g" and b: "boxes_ok {f, g} (cards s)"
    by (simp_all add: playing_def)
  have e: "(cards s)[f := conceal (cards s ! f)] ! g = cards s ! g" using ne by simp
  show "step s (Timeout t) =
           Inr (s\<lparr>timers := [],
                  cards := (cards s)[f := conceal (cards s ! f), g := conceal (cards s ! g)],
                  firstCard := None, secondCard := None, lockBoard := False\<rparr>)"
    using assms(2,3,4) e by (simp add: mismatchHide_def update_card_def resetBoard_def)
  note m = mismatch_cards [OF b fl gl ne]
  show "playing (s\<lparr>timers := [],
                  cards := (cards s)[f := conceal (cards s ! f), g := conceal (cards s ! g)],
                  firstCard := None, secondCard := None, lockBoard := False\<rparr>)"
    using c m by (simp add: playing_def count_ok_def)
qed

lemma playing_timeout:
  assumes "playing s"
  shows "\<exists>s'. step s (Timeout t) = Inr s' \<and> playing s'"
proof (cases "firstCard s")
  case None
  then have "timers s = []" using playing_none_selected(4) [OF assms] by simp
  then have "step s (Timeout t) = Inr s" by simp
  then show ?thesis using assms by simp
next
  case (Some f)
  show ?thesis
  proof (cases "lockBoard s")
    case False
    from playing_one_selected(4) [OF assms Some False]
    obtain t0 where t0: "timers s = [(t0, 2000, AutoHide)]" by blast
    show ?thesis
    proof (cases "t = t0")
      case True
      then show ?thesis using autoHide_fires [OF assms Some False t0] by blast
    next
      case ne: False
      then have "step s (Timeout t) = Inr s" using t0 by simp
      then show ?thesis using assms by simp
    qed
  next
    case True
    from playing_locked [OF assms True] Some
    obtain g t0 where g: "secondCard s = Some g" and t0: "timers s = [(t0, 500, MismatchHide)]"
      by auto
    show ?thesis
    proof (cases "t = t0")
      case True
      then show ?thesis using mismatchHide_fires [OF assms Some g t0] by blast
    next
      case ne: False
      then have "step s (Timeout t) = Inr s" using t0 by simp
      then show ?thesis using assms by simp
    qed
  qed
qed

lemma round_inv_step:
  assumes "round_inv s"
  shows "\<exists>s'. step s e = Inr s' \<and> round_inv s'"
proof (cases e)
  case (Click i)
  then show ?thesis
    using assms waiting_click [of s i] playing_click [of s i]
    by (auto simp: round_inv_def)
next
  case (Timeout t)
  then show ?thesis
    using assms waiting_timeout [of s t] playing_timeout [of s t]
    by (auto simp: round_inv_def)
qed

lemma round_inv_run:
  assumes "round_inv s"
  shows "\<exists>s'. run s es = Inr s' \<and> round_inv s'"
  using assms
proof (induction es arbitrary: s)
  case Nil
  then show ?case by simp
next
  case (Cons e es)
  from round_inv_step [OF Cons.prems, of e]
  obtain s1 where s1: "step s e = Inr s1" "round_inv s1" by blast
  from Cons.IH [OF s1(2)] s1(1) show ?case by simp
qed

section \<open>The round that \<open>initializeGame\<close> sets up\<close>

lemma createBox_initial: "initial_box (createBox content ident)"
  by (simp add: initial_box_def createBox_def cl_add_def)

lemma create_cards_gen_length:
  "length (concat (map pair_cards (enumerate n sel))) = 2 * length sel"
  by (induction sel arbitrary: n) (simp_all add: pair_cards_def)

lemma length_create_cards: "length (create_cards sel) = 2 * length sel"
  by (simp add: create_cards_def create_cards_gen_length)

lemma create_cards_initial: "c \<in> set (create_cards sel) \<Longrightarrow> initial_box c"
  by (auto simp: create_cards_def pair_cards_def createBox_initial)

lemma length_selected:
  assumes "is_shuffle shuffleT" "3 \<le> length (uniqueTranslations ts)"
  shows "length (selectedTranslations shuffleT ts) = min 6 (max 3 (length (uniqueTranslations ts)))"
  using assms
  by (simp add: selectedTranslations_def getRandomSubset_def numPairs_def shuffle_length)

lemma initializeGame_round:
  assumes "3 \<le> length (uniqueTranslations ts)"
  shows "initializeGame shuffleT shuffleB ts =
     page_load\<lparr>cards := shuffleB (create_cards (selectedTranslations shuffleT ts)),
               timers := [(1, 4000, StartGame)], next_timer := 2\<rparr>"
  using assms by (simp add: initializeGame_def page_load_def setTimeout_def Let_def)

lemma initializeGame_cards:
  assumes "is_shuffle shuffleT" "is_shuffle shuffleB" "3 \<le> length (uniqueTranslations ts)"
  shows "length (cards (initializeGame shuffleT shuffleB ts))
         = 2 * min 6 (max 3 (length (uniqueTranslations ts)))"
  using assms length_selected [OF assms(1,3)]
  by (simp add: initializeGame_round shuffle_length length_create_cards)

lemma initializeGame_waiting:
  assumes "is_shuffle shuffleT" "is_shuffle shuffleB" "3 \<le> length (uniqueTranslations ts)"
  shows "waiting (initializeGame shuffleT shuffleB ts)"
proof -
  let ?cs = "shuffleB (create_cards (selectedTranslations shuffleT ts))"
  have "length ?cs = 2 * min 6 (max 3 (length (uniqueTranslations ts)))"
    using initializeGame_cards [OF assms] assms(3) by (simp add: initializeGame_round)
  then have ne: "?cs \<noteq> []" using assms(3) by auto
  have "set ?cs = set (create_cards (selectedTranslations shuffleT ts))"
    using assms(2) by (rule shuffle_set)
  then have all: "list_all initial_box ?cs"
    by (simp add: list_all_iff create_cards_initial)
  show ?thesis
    using ne all assms(3)
    by (simp add: initializeGame_round waiting_def page_load_def)
qed

lemma reachable_round:
  assumes "is_shuffle shuffleT" "is_shuffle shuffleB" "3 \<le> length (uniqueTranslations ts)"
  shows "\<exists>s. run (initializeGame shuffleT shuffleB ts) es = Inr s \<and> round_inv s"
  using round_inv_run [of "initializeGame shuffleT shuffleB ts" es]
    initializeGame_waiting [OF assms]
  by (simp add: round_inv_def)

lemma revealed_indices:
  assumes "boxes_ok A cs" "\<forall>j \<in> A. j < length cs"
  shows "{j. j < length cs \<and> card_state (cs ! j) = Revealed} = A"
proof -
  have "\<And>j. j < length cs \<Longrightarrow> j \<notin> A \<Longrightarrow> card_state (cs ! j) \<noteq> Revealed"
    using boxes_ok_nth(2) [OF assms(1)] card_state_shapes(2,4) by fastforce
  moreover have "\<And>j. j \<in> A \<Longrightarrow> card_state (cs ! j) = Revealed"
    using boxes_ok_nth(1) [OF assms(1)] assms(2) card_state_shapes(3) by blast
  ultimately show ?thesis using assms(2) by blast
qed

lemma revealed_card:
  assumes "boxes_ok A cs" "\<forall>j \<in> A. j < length cs"
  shows "length (filter (\<lambda>c. card_state c = Revealed) cs) = card A"
  using revealed_indices [OF assms] by (simp add: length_filter_conv_card)

lemma waiting_revealed: "waiting s \<Longrightarrow> revealed_count s = 0"
proof -
  assume "waiting s"
  then have "\<forall>c \<in> set (cards s). card_state c \<noteq> Revealed"
    using card_state_shapes(1) by (fastforce simp: waiting_def list_all_iff)
  then show ?thesis by (simp add: revealed_count_def filter_none)
qed

lemma playing_revealed:
  assumes "playing s"
  shows "revealed_count s = (if secondCard s \<noteq> None then 2 else if firstCard s \<noteq> None then 1 else 0)"
proof (cases "firstCard s")
  case None
  note p = playing_none_selected [OF assms None]
  show ?thesis using revealed_card [OF p(5)] p(2) None by (simp add: revealed_count_def)
next
  case (Some f)
  show ?thesis
  proof (cases "lockBoard s")
    case False
    note p = playing_one_selected [OF assms Some False]
    show ?thesis using revealed_card [OF p(5)] p(2,3) Some by (simp add: revealed_count_def)
  next
    case True
    from playing_locked [OF assms True] Some
    obtain g where g: "secondCard s = Some g" "f \<noteq> g" "f < length (cards s)"
      "g < length (cards s)" "boxes_ok {f, g} (cards s)" by auto
    show ?thesis using revealed_card [OF g(5)] g(1,2,3,4) Some by (simp add: revealed_count_def)
  qed
qed

lemma round_inv_lock:
  assumes "round_inv s"
  shows "lockBoard s = (secondCard s \<noteq> None)"
    and "lockBoard s = (\<exists>t. timers s = [(t, 500, MismatchHide)])"
    and "revealed_count s = (if secondCard s \<noteq> None then 2 else if firstCard s \<noteq> None then 1 else 0)"
  using assms playing_revealed [of s] waiting_revealed [of s]
  by (auto simp: round_inv_def waiting_def playing_def split: option.splits)

section \<open>What a transition leaves alone\<close>

lemma playing_step_cases [consumes 1, case_names idle first matching mismatching autohide mismatchhide]:
  assumes "playing s"
  obtains (idle) "step s e = Inr s"
  | (first) i where "e = Click i" "firstCard s = None" "\<not> lockBoard s"
      "i < length (cards s)" "hidden_box (cards s ! i)"
  | (matching) f i where "e = Click i" "firstCard s = Some f" "\<not> lockBoard s" "i \<noteq> f"
      "i < length (cards s)" "hidden_box (cards s ! i)"
      "pairKey (dataset_id (cards s ! f)) = pairKey (dataset_id (cards s ! i))"
  | (mismatching) f i where "e = Click i" "firstCard s = Some f" "\<not> lockBoard s" "i \<noteq> f"
      "i < length (cards s)" "hidden_box (cards s ! i)"
      "pairKey (dataset_id (cards s ! f)) \<noteq> pairKey (dataset_id (cards s ! i))"
  | (autohide) f t where "e = Timeout t" "firstCard s = Some f" "\<not> lockBoard s"
      "timers s = [(t, 2000, AutoHide)]"
  | (mismatchhide) f g t where "e = Timeout t" "firstCard s = Some f" "secondCard s = Some g"
      "timers s = [(t, 500, MismatchHide)]"
proof (cases e)
  case (Click i)
  show ?thesis
  proof (cases "i < length (cards s) \<and> onclick (cards s ! i) \<and> \<not> lockBoard s \<and> firstCard s \<noteq> Some i")
    case False
    then have "step s e = Inr s" using Click by (auto simp: flipCard_def)
    then show ?thesis by (rule idle)
  next
    case True
    then have il: "i < length (cards s)" and oc: "onclick (cards s ! i)"
      and nl: "\<not> lockBoard s" and ni: "firstCard s \<noteq> Some i" by simp_all
    show ?thesis
    proof (cases "firstCard s")
      case None
      have "hidden_box (cards s ! i)"
        using boxes_ok_clickable [OF playing_none_selected(5) [OF assms None] il _ oc] by simp
      then show ?thesis using first [OF Click None nl il] by simp
    next
      case (Some f)
      then have ne: "i \<noteq> f" using ni by simp
      have "hidden_box (cards s ! i)"
        using boxes_ok_clickable [OF playing_one_selected(5) [OF assms Some nl] il _ oc] ne by simp
      then show ?thesis
        using matching [OF Click Some nl ne il] mismatching [OF Click Some nl ne il] by blast
    qed
  qed
next
  case (Timeout t)
  show ?thesis
  proof (cases "firstCard s")
    case None
    then have "timers s = []" using playing_none_selected(4) [OF assms] by simp
    then have "step s e = Inr s" using Timeout by simp
    then show ?thesis by (rule idle)
  next
    case (Some f)
    show ?thesis
    proof (cases "lockBoard s")
      case False
      from playing_one_selected(4) [OF assms Some False]
      obtain t0 where t0: "timers s = [(t0, 2000, AutoHide)]" by blast
      show ?thesis
      proof (cases "t = t0")
        case True
        then show ?thesis using autohide [OF Timeout Some False] t0 by simp
      next
        case ne: False
        then have "step s e = Inr s" using t0 Timeout by simp
        then show ?thesis by (rule idle)
      qed
    next
      case True
      from playing_locked [OF assms True] Some
      obtain g t0 where g: "secondCard s = Some g" and t0: "timers s = [(t0, 500, MismatchHide)]"
        by auto
      show ?thesis
      proof (cases "t = t0")
        case True
        then show ?thesis using mismatchhide [OF Timeout Some g] t0 by simp
      next
        case ne: False
        then have "step s e = Inr s" using t0 Timeout by simp
        then show ?thesis by (rule idle)
      qed
    qed
  qed
qed

lemma step_click: "i < length (cards s) \<Longrightarrow> onclick (cards s ! i) \<Longrightarrow> step s (Click i) = Inr (flipCard i s)"
  by simp

lemma hidden_onclick: "hidden_box c \<Longrightarrow> onclick c"
  by (simp add: hidden_box_def)

lemma playing_step_frame:
  assumes "playing s" "step s e = Inr s'"
  shows "length (cards s') = length (cards s)
      \<and> (\<forall>j < length (cards s). matched_box (cards s ! j) \<longrightarrow> cards s' ! j = cards s ! j)
      \<and> (matchedCount s' = matchedCount s \<or> matchedCount s' = matchedCount s + 2)"
  using assms(1)
proof (cases rule: playing_step_cases [where e = e])
  case idle
  then show ?thesis using assms(2) by simp
next
  case (first i)
  have "s' = flipCard i s"
    using assms(2) first(1) step_click [OF first(4) hidden_onclick [OF first(5)]] by simp
  moreover have "\<And>j. matched_box (cards s ! j) \<Longrightarrow> i \<noteq> j"
    using box_shapes_exclusive(1) [OF first(5)] by auto
  ultimately show ?thesis
    by (auto simp: flipCard_first [OF first(3,2)])
next
  case (matching f i)
  note p = playing_one_selected [OF assms(1) matching(2,3)]
  have nf: "\<not> matched_box (cards s ! f)"
    using boxes_ok_nth(1) [OF p(5) p(2)] box_shapes_exclusive(2) by simp
  have "s' = flipCard i s"
    using assms(2) matching(1) step_click [OF matching(5) hidden_onclick [OF matching(6)]] by simp
  moreover have "\<And>j. matched_box (cards s ! j) \<Longrightarrow> i \<noteq> j \<and> f \<noteq> j"
    using box_shapes_exclusive(1) [OF matching(6)] nf by auto
  ultimately show ?thesis
    by (auto simp: flipCard_second_match [OF matching(3,2,4,7) p(2) matching(5)])
next
  case (mismatching f i)
  note p = playing_one_selected [OF assms(1) mismatching(2,3)]
  have "s' = flipCard i s"
    using assms(2) mismatching(1) step_click [OF mismatching(5) hidden_onclick [OF mismatching(6)]] by simp
  moreover have "\<And>j. matched_box (cards s ! j) \<Longrightarrow> i \<noteq> j"
    using box_shapes_exclusive(1) [OF mismatching(6)] by auto
  ultimately show ?thesis
    by (auto simp: flipCard_second_mismatch [OF mismatching(3,2,4,7) p(2) mismatching(5)])
next
  case (autohide f t)
  note p = playing_one_selected [OF assms(1) autohide(2,3)]
  have nf: "\<not> matched_box (cards s ! f)"
    using boxes_ok_nth(1) [OF p(5) p(2)] box_shapes_exclusive(2) by simp
  have "\<And>j. matched_box (cards s ! j) \<Longrightarrow> f \<noteq> j" using nf by auto
  then show ?thesis
    using assms(2) autohide(1) autoHide_fires(1) [OF assms(1) autohide(2,3,4)]
    by auto
next
  case (mismatchhide f g t)
  from assms(1) mismatchhide(2,3)
  have b: "boxes_ok {f, g} (cards s)" and fl: "f < length (cards s)" and gl: "g < length (cards s)"
    by (simp_all add: playing_def)
  have nf: "\<not> matched_box (cards s ! f)" "\<not> matched_box (cards s ! g)"
    using boxes_ok_nth(1) [OF b fl] boxes_ok_nth(1) [OF b gl] box_shapes_exclusive(2) by simp_all
  have "\<And>j. matched_box (cards s ! j) \<Longrightarrow> f \<noteq> j \<and> g \<noteq> j" using nf by auto
  then show ?thesis
    using assms(2) mismatchhide(1) mismatchHide_fires(1) [OF assms(1) mismatchhide(2,3,4)]
    by auto
qed

lemma waiting_step_frame:
  assumes "waiting s" "step s e = Inr s'"
  shows "length (cards s') = length (cards s)
      \<and> (\<forall>j < length (cards s). matched_box (cards s ! j) \<longrightarrow> cards s' ! j = cards s ! j)
      \<and> (matchedCount s' = matchedCount s \<or> matchedCount s' = matchedCount s + 2)"
proof -
  obtain t0 where t0: "timers s = [(t0, 4000, StartGame)]"
    using assms(1) by (auto simp: waiting_def)
  have nm: "\<forall>j < length (cards s). \<not> matched_box (cards s ! j)"
    using assms(1) box_shapes_exclusive(4) by (auto simp: waiting_def list_all_length)
  have mc: "matchedCount s = 0" using assms(1) by (simp add: waiting_def)
  have "s' = s \<or> s' = startGame (s\<lparr>timers := []\<rparr>)"
  proof (cases e)
    case (Click i)
    then show ?thesis using waiting_click [OF assms(1), of i] assms(2) by simp
  next
    case (Timeout t)
    then show ?thesis using t0 assms(2) by (cases "t = t0") simp_all
  qed
  then show ?thesis
    using nm mc by (auto simp: startGame_def)
qed

lemma round_inv_step_frame:
  assumes "round_inv s" "step s e = Inr s'"
  shows "length (cards s') = length (cards s)
      \<and> (\<forall>j < length (cards s). matched_box (cards s ! j) \<longrightarrow> cards s' ! j = cards s ! j)
      \<and> (matchedCount s' = matchedCount s \<or> matchedCount s' = matchedCount s + 2)"
  using assms playing_step_frame [of s e s'] waiting_step_frame [of s e s']
  unfolding round_inv_def by blast

lemma round_inv_run_frame:
  assumes "round_inv s" "run s es = Inr s'"
  shows "length (cards s') = length (cards s)
     \<and> (\<forall>j < length (cards s). matched_box (cards s ! j) \<longrightarrow> cards s' ! j = cards s ! j)
     \<and> matchedCount s \<le> matchedCount s'"
  using assms
proof (induction es arbitrary: s)
  case Nil
  then show ?case by simp
next
  case (Cons e es)
  from round_inv_step [OF Cons.prems(1), of e]
  obtain s1 where s1: "step s e = Inr s1" "round_inv s1" by blast
  then have r: "run s1 es = Inr s'" using Cons.prems(2) by simp
  note ih = Cons.IH [OF s1(2) r]
  note fr = round_inv_step_frame [OF Cons.prems(1) s1(1)]
  show ?case using ih fr by auto
qed

lemma round_inv_shapes:
  assumes "round_inv s" "j < length (cards s)"
  shows "initial_box (cards s ! j) \<or> hidden_box (cards s ! j) \<or> revealed_box (cards s ! j)
        \<or> matched_box (cards s ! j)"
proof (cases "waiting s")
  case True
  then show ?thesis using assms(2) by (simp add: waiting_def list_all_length)
next
  case False
  then have "playing s" using assms(1) by (simp add: round_inv_def)
  then obtain A where "boxes_ok A (cards s)"
    by (auto simp: playing_def split: option.splits)
  then show ?thesis using assms(2) by (auto simp: boxes_ok_def split: if_splits)
qed

lemma matched_state_shape:
  assumes "round_inv s" "j < length (cards s)" "card_state (cards s ! j) = Matched"
  shows "matched_box (cards s ! j)"
  using round_inv_shapes [OF assms(1,2)] assms(3) card_state_shapes(1,2,3) [of "cards s ! j"]
  by auto

lemma all_matched:
  assumes "length (filter matched_box cs) = length cs" "j < length cs"
  shows "matched_box (cs ! j)"
  using assms unmatched_count_less [of j cs] by auto

lemma won_absorbing:
  assumes "round_inv s" "winnerMessage_display s"
  shows "step s e = Inr s"
proof -
  have p: "playing s" using assms by (auto simp: round_inv_def waiting_def)
  then have c: "count_ok s" by (simp add: playing_def)
  then have full: "length (filter matched_box (cards s)) = length (cards s)"
    using assms(2) by (simp add: count_ok_def)
  have m: "\<And>j. j < length (cards s) \<Longrightarrow> matched_box (cards s ! j)"
    using all_matched [OF full] by simp
  from p show ?thesis
  proof (cases rule: playing_step_cases [where e = e])
    case idle
    then show ?thesis .
  next
    case (first i)
    then show ?thesis using m box_shapes_exclusive(1) by blast
  next
    case (matching f i)
    then show ?thesis using m box_shapes_exclusive(1) by blast
  next
    case (mismatching f i)
    then show ?thesis using m box_shapes_exclusive(1) by blast
  next
    case (autohide f t)
    note q = playing_one_selected [OF p autohide(2,3)]
    show ?thesis using boxes_ok_nth(1) [OF q(5) q(2)] m [OF q(2)] box_shapes_exclusive(2) by simp
  next
    case (mismatchhide f g t)
    have "f < length (cards s)" "boxes_ok {f, g} (cards s)"
      using p mismatchhide(2,3) by (simp_all add: playing_def)
    then show ?thesis using boxes_ok_nth(1) [of "{f, g}" "cards s" f] m [of f] box_shapes_exclusive(2) by simp
  qed
qed

section \<open>Single transitions from a reachable state\<close>

lemma selected_playing: "round_inv s \<Longrightarrow> firstCard s = Some f \<Longrightarrow> playing s"
  by (auto simp: round_inv_def waiting_def)

lemma clickable_playing: "round_inv s \<Longrightarrow> i < length (cards s) \<Longrightarrow> onclick (cards s ! i) \<Longrightarrow> playing s"
  by (auto simp: round_inv_def waiting_def list_all_length initial_box_def)

lemma second_click_match:
  assumes "round_inv s" "firstCard s = Some f" "\<not> lockBoard s" "i \<noteq> f"
    "i < length (cards s)" "onclick (cards s ! i)"
    "pairKey (dataset_id (cards s ! f)) = pairKey (dataset_id (cards s ! i))"
  shows "\<exists>s1. step s (Click i) = Inr s1 \<and> round_inv s1
           \<and> matched_box (cards s1 ! f) \<and> matched_box (cards s1 ! i)
           \<and> f < length (cards s1) \<and> i < length (cards s1)
           \<and> matchedCount s1 = matchedCount s + 2
           \<and> firstCard s1 = None \<and> secondCard s1 = None \<and> \<not> lockBoard s1
           \<and> timers s1 = []
           \<and> winnerMessage_display s1 = (matchedCount s1 = length (cards s1))
           \<and> resetButton_display s1 = winnerMessage_display s1"
proof -
  have pl: "playing s" by (rule selected_playing [OF assms(1,2)])
  note p = playing_one_selected [OF pl assms(2,3)]
  have pl1: "playing (flipCard i s)"
    by (rule playing_match_click [OF pl assms(2,3,4,5,6,7)])
  have h: "hidden_box (cards s ! i)"
    using boxes_ok_clickable [OF p(5) assms(5) _ assms(6)] assms(4) by simp
  have r: "revealed_box (cards s ! f)" using boxes_ok_nth(1) [OF p(5) p(2)] by simp
  note ex = flipCard_second_match [OF assms(3,2,4,7) p(2) assms(5)]
  have cf: "cards (flipCard i s) ! f = mark_matched (cards s ! f)"
    and ci: "cards (flipCard i s) ! i = mark_matched (reveal (cards s ! i))"
    and len: "length (cards (flipCard i s)) = length (cards s)"
    and mc: "matchedCount (flipCard i s) = matchedCount s + 2"
    and sl: "firstCard (flipCard i s) = None" "secondCard (flipCard i s) = None"
      "\<not> lockBoard (flipCard i s)"
    using assms(4,5) p(2) by (simp_all add: ex)
  have tm: "timers (flipCard i s) = []"
    using playing_none_selected(4) [OF pl1 sl(1)] .
  have w: "winnerMessage_display (flipCard i s) = (matchedCount (flipCard i s) = length (cards (flipCard i s)))"
    "resetButton_display (flipCard i s) = winnerMessage_display (flipCard i s)"
    using pl1 by (simp_all add: playing_def count_ok_def)
  have "step s (Click i) = Inr (flipCard i s)" using assms(5,6) by simp
  then show ?thesis
    using pl1 cf ci len mc sl tm w mark_revealed [OF r] mark_revealed [OF reveal_hidden [OF h]]
      p(2) assms(5)
    by (simp add: round_inv_def)
qed

lemma second_click_mismatch:
  assumes "round_inv s" "firstCard s = Some f" "\<not> lockBoard s" "i \<noteq> f"
    "i < length (cards s)" "onclick (cards s ! i)"
    "pairKey (dataset_id (cards s ! f)) \<noteq> pairKey (dataset_id (cards s ! i))"
  shows "\<exists>s1 t. step s (Click i) = Inr s1 \<and> round_inv s1
           \<and> lockBoard s1 \<and> firstCard s1 = Some f \<and> secondCard s1 = Some i
           \<and> revealed_box (cards s1 ! f) \<and> revealed_box (cards s1 ! i)
           \<and> matchedCount s1 = matchedCount s
           \<and> timers s1 = [(t, 500, MismatchHide)]
           \<and> (\<exists>s2. step s1 (Timeout t) = Inr s2 \<and> round_inv s2
                 \<and> hidden_box (cards s2 ! f) \<and> hidden_box (cards s2 ! i)
                 \<and> matchedCount s2 = matchedCount s
                 \<and> firstCard s2 = None \<and> secondCard s2 = None \<and> \<not> lockBoard s2
                 \<and> timers s2 = [])"
proof -
  have pl: "playing s" by (rule selected_playing [OF assms(1,2)])
  note p = playing_one_selected [OF pl assms(2,3)]
  let ?s1 = "flipCard i s"
  have pl1: "playing ?s1"
    by (rule playing_mismatch_click [OF pl assms(2,3,4,5,6,7)])
  note ex = flipCard_second_mismatch [OF assms(3,2,4,7) p(2) assms(5)]
  have f1: "firstCard ?s1 = Some f" and g1: "secondCard ?s1 = Some i" and l1: "lockBoard ?s1"
    and mc1: "matchedCount ?s1 = matchedCount s" and len1: "length (cards ?s1) = length (cards s)"
    using assms(2) by (simp_all add: ex)
  from playing_locked [OF pl1 l1] f1 g1
  obtain t where t: "timers ?s1 = [(t, 500, MismatchHide)]"
    and b1: "boxes_ok {f, i} (cards ?s1)" by auto
  have fl: "f < length (cards ?s1)" and il: "i < length (cards ?s1)"
    using p(2) assms(5) len1 by simp_all
  have r: "revealed_box (cards ?s1 ! f)" "revealed_box (cards ?s1 ! i)"
    using boxes_ok_nth(1) [OF b1 fl] boxes_ok_nth(1) [OF b1 il] by simp_all
  let ?s2 = "?s1\<lparr>timers := [],
                  cards := (cards ?s1)[f := conceal (cards ?s1 ! f), i := conceal (cards ?s1 ! i)],
                  firstCard := None, secondCard := None, lockBoard := False\<rparr>"
  note mh = mismatchHide_fires [OF pl1 f1 g1 t]
  have hf: "hidden_box (cards ?s2 ! f)"
    using conceal_revealed [OF r(1)] fl assms(4) by simp
  have hi: "hidden_box (cards ?s2 ! i)"
    using conceal_revealed [OF r(2)] il by simp
  have rest: "matchedCount ?s2 = matchedCount s" "firstCard ?s2 = None" "secondCard ?s2 = None"
    "\<not> lockBoard ?s2" "timers ?s2 = []"
    using mc1 by simp_all
  have st: "step s (Click i) = Inr ?s1" using assms(5,6) by simp
  have "step ?s1 (Timeout t) = Inr ?s2 \<and> round_inv ?s2
                 \<and> hidden_box (cards ?s2 ! f) \<and> hidden_box (cards ?s2 ! i)
                 \<and> matchedCount ?s2 = matchedCount s
                 \<and> firstCard ?s2 = None \<and> secondCard ?s2 = None \<and> \<not> lockBoard ?s2
                 \<and> timers ?s2 = []"
    using mh hf hi rest by (simp only: round_inv_def) simp
  then have "\<exists>s2. step ?s1 (Timeout t) = Inr s2 \<and> round_inv s2
                 \<and> hidden_box (cards s2 ! f) \<and> hidden_box (cards s2 ! i)
                 \<and> matchedCount s2 = matchedCount s
                 \<and> firstCard s2 = None \<and> secondCard s2 = None \<and> \<not> lockBoard s2
                 \<and> timers s2 = []"
    by (rule exI)
  then show ?thesis
    using st pl1 l1 f1 g1 r mc1 t unfolding round_inv_def by blast
qed

lemma first_click:
  assumes "round_inv s" "firstCard s = None" "\<not> lockBoard s"
    "i < length (cards s)" "onclick (cards s ! i)"
  shows "\<exists>s1 t. step s (Click i) = Inr s1 \<and> round_inv s1
           \<and> revealed_box (cards s1 ! i) \<and> dataset_content (cards s1 ! i) = dataset_content (cards s ! i)
           \<and> firstCard s1 = Some i \<and> secondCard s1 = None \<and> \<not> lockBoard s1
           \<and> matchedCount s1 = matchedCount s
           \<and> flipTimer s1 = Some t \<and> timers s1 = [(t, 2000, AutoHide)] \<and> timers s = []
           \<and> (\<exists>s2. step s1 (Timeout t) = Inr s2 \<and> round_inv s2
                 \<and> hidden_box (cards s2 ! i)
                 \<and> matchedCount s2 = matchedCount s
                 \<and> firstCard s2 = None \<and> secondCard s2 = None \<and> \<not> lockBoard s2
                 \<and> timers s2 = [])"
proof -
  have pl: "playing s" by (rule clickable_playing [OF assms(1,4,5)])
  note p = playing_none_selected [OF pl assms(2)]
  have h: "hidden_box (cards s ! i)" using boxes_ok_clickable [OF p(5) assms(4) _ assms(5)] by simp
  let ?s1 = "flipCard i s"
  have pl1: "playing ?s1" by (rule playing_first_click [OF pl assms(2,4,5)])
  note ex = flipCard_first [OF assms(3,2)]
  have f1: "firstCard ?s1 = Some i" and g1: "secondCard ?s1 = None" and l1: "\<not> lockBoard ?s1"
    and mc1: "matchedCount ?s1 = matchedCount s" and len1: "length (cards ?s1) = length (cards s)"
    and c1: "cards ?s1 ! i = reveal (cards s ! i)"
    using p(2) assms(3,4) by (simp_all add: ex)
  from playing_one_selected(4) [OF pl1 f1 l1]
  obtain t where t: "flipTimer ?s1 = Some t" "timers ?s1 = [(t, 2000, AutoHide)]" by blast
  have il: "i < length (cards ?s1)" using assms(4) len1 by simp
  have r: "revealed_box (cards ?s1 ! i)" using c1 reveal_hidden [OF h] by simp
  have dc: "dataset_content (cards ?s1 ! i) = dataset_content (cards s ! i)"
    using c1 by (simp add: reveal_def)
  let ?s2 = "?s1\<lparr>timers := [], cards := (cards ?s1)[i := conceal (cards ?s1 ! i)],
                  firstCard := None\<rparr>"
  note ah = autoHide_fires [OF pl1 f1 l1 t(2)]
  have hi: "hidden_box (cards ?s2 ! i)" using conceal_revealed [OF r] il by simp
  have rest: "matchedCount ?s2 = matchedCount s" "firstCard ?s2 = None" "secondCard ?s2 = None"
    "\<not> lockBoard ?s2" "timers ?s2 = []"
    using mc1 g1 l1 by simp_all
  have st: "step s (Click i) = Inr ?s1" using assms(4,5) by simp
  have "step ?s1 (Timeout t) = Inr ?s2 \<and> round_inv ?s2
                 \<and> hidden_box (cards ?s2 ! i)
                 \<and> matchedCount ?s2 = matchedCount s
                 \<and> firstCard ?s2 = None \<and> secondCard ?s2 = None \<and> \<not> lockBoard ?s2
                 \<and> timers ?s2 = []"
    using ah hi rest by (simp only: round_inv_def) simp
  then have "\<exists>s2. step ?s1 (Timeout t) = Inr s2 \<and> round_inv s2
                 \<and> hidden_box (cards s2 ! i)
                 \<and> matchedCount s2 = matchedCount s
                 \<and> firstCard s2 = None \<and> secondCard s2 = None \<and> \<not> lockBoard s2
                 \<and> timers s2 = []"
    by (rule exI)
  then show ?thesis
    using st pl1 l1 f1 g1 r dc mc1 t p(4) unfolding round_inv_def by blast
qed

lemma locked_idle:
  assumes "lockBoard s" "timers s = [(t, d, cb)]" "e \<noteq> Timeout t"
  shows "step s e = Inr s"
proof (cases e)
  case (Click i)
  then show ?thesis using assms(1) by (simp add: flipCard_def)
next
  case (Timeout t')
  then show ?thesis using assms(2,3) by simp
qed

lemma ignored_click:
  "lockBoard s \<or> firstCard s = Some i \<Longrightarrow> step s (Click i) = Inr s"
  by (auto simp: flipCard_def)

section \<open>Evaluating concrete rounds\<close>

lemmas eval_defs = sample_round_def initializeGame_def uniqueTranslations_def new_Map_def map_values_def
  sample_translations_def rec_ax_def rec_ay_def rec_b_def rec_c_def
  selectedTranslations_def getRandomSubset_def numPairs_def create_cards_def pair_cards_def
  enumerate_eq_zip createBox_def cl_add_def cl_remove_def page_load_def setTimeout_def
  clearTimeout_def update_card_def startGame_def hide_initial_def reveal_def conceal_def
  mark_matched_def resetBoard_def flipCard_def second_selection_def autoHide_def mismatchHide_def
  pairKey_def Let_def

lemma digit_char_values [simp]:
  "digit_char 0 = CHR ''0''" "digit_char 1 = CHR ''1''" "digit_char 2 = CHR ''2''"
  "digit_char 3 = CHR ''3''" "digit_char 4 = CHR ''4''" "digit_char 5 = CHR ''5''"
  "digit_char 6 = CHR ''6''" "digit_char 7 = CHR ''7''" "digit_char 8 = CHR ''8''"
  "digit_char 9 = CHR ''9''"
  unfolding digit_char_def by code_simp+

lemma toString_small:
  "toString 0 = ''0''" "toString (Suc 0) = ''1''" "toString (Suc (Suc 0)) = ''2''"
proof -
  show "toString 0 = ''0''" by (simp add: toString.simps)
  show "toString (Suc 0) = ''1''" using digit_char_values(2) by (simp add: toString.simps)
  have "toString 2 = ''2''" by (simp add: toString.simps)
  then show "toString (Suc (Suc 0)) = ''2''" by (simp add: numeral_2_eq_2)
qed

section \<open>Card ids\<close>

lemma digit_char_is_digit: "d < 10 \<Longrightarrow> is_digit (digit_char d)"
  by (simp add: is_digit_def digit_char_def)

lemma digit_char_value: "d < 10 \<Longrightarrow> (of_char (digit_char d) :: nat) - 48 = d"
  by (simp add: digit_char_def)

lemma toString_digits: "\<forall>c \<in> set (toString n). is_digit c"
proof (induction n rule: toString.induct)
  case (1 n)
  show ?case
  proof (cases "n < 10")
    case True
    then show ?thesis by (subst toString.simps) (simp add: digit_char_is_digit)
  next
    case False
    then show ?thesis using 1 by (subst toString.simps) (simp add: digit_char_is_digit)
  qed
qed

lemma toString_nonempty: "toString n \<noteq> []"
  by (subst toString.simps) simp

lemma toString_value:
  "foldl (\<lambda>a c. 10 * a + ((of_char c :: nat) - 48)) 0 (toString n) = n"
proof (induction n rule: toString.induct)
  case (1 n)
  show ?case
  proof (cases "n < 10")
    case True
    then show ?thesis by (subst toString.simps) (simp add: digit_char_value)
  next
    case False
    then show ?thesis using 1 by (subst toString.simps) (simp add: digit_char_value)
  qed
qed

lemma parseInt_toString: "parseInt (toString n) = Some n"
proof -
  have tw: "takeWhile is_digit (toString n) = toString n"
    using toString_digits by (simp add: takeWhile_eq_all_conv)
  show ?thesis
    by (simp only: parseInt_def Let_def tw) (simp add: toString_nonempty toString_value)
qed

lemma toString_inj: "(toString m = toString n) = (m = n)"
proof
  assume "toString m = toString n"
  then have "parseInt (toString m) = parseInt (toString n)" by (rule arg_cong)
  then show "m = n" by (simp only: parseInt_toString option.inject)
qed simp

lemma toString_no_dash: "CHR ''-'' \<notin> set (toString n)"
proof
  assume "CHR ''-'' \<in> set (toString n)"
  then have "is_digit CHR ''-''" using toString_digits by blast
  then show False by (simp add: is_digit_def)
qed

lemma split_str_no_sep: "sep \<notin> set xs \<Longrightarrow> split_str sep xs = [xs]"
  by (induction xs) (auto simp: Let_def)

lemma pairKey_card_ids:
  "pairKey (''input-'' @ toString n) = Some (toString n)"
  "pairKey (''output-'' @ toString n) = Some (toString n)"
  using split_str_no_sep [OF toString_no_dash [of n]]
  by (simp_all add: pairKey_def Let_def)

lemma pair_cards_filter:
  "filter (\<lambda>c. pairKey (dataset_id c) = Some (toString i)) (pair_cards (n, t))
   = (if n = i then pair_cards (n, t) else [])"
  by (simp add: pair_cards_def createBox_def toString_inj pairKey_card_ids [simplified])

lemma create_cards_gen_filter:
  "filter (\<lambda>c. pairKey (dataset_id c) = Some (toString i))
          (concat (map pair_cards (enumerate n ps)))
   = (if n \<le> i \<and> i < n + length ps then pair_cards (i, ps ! (i - n)) else [])"
proof (induction ps arbitrary: n)
  case Nil
  show ?case by auto
next
  case (Cons p ps)
  show ?case
  proof (cases "n = i")
    case True
    then show ?thesis using Cons.IH [of "Suc n"] by (simp add: pair_cards_filter)
  next
    case False
    then show ?thesis using Cons.IH [of "Suc n"]
      by (cases "n < i") (simp_all add: pair_cards_filter Suc_diff_le)
  qed
qed

lemma create_cards_filter:
  "i < length ps \<Longrightarrow>
   filter (\<lambda>c. pairKey (dataset_id c) = Some (toString i)) (create_cards ps)
   = pair_cards (i, ps ! i)"
  by (simp add: create_cards_def create_cards_gen_filter)

lemma shuffle_filter_mset:
  "is_shuffle sh \<Longrightarrow> mset (filter P (sh xs)) = mset (filter P xs)"
  by (simp add: is_shuffle_def)

section \<open>Properties of the round\<close>

lemma is_shuffle_keep: "is_shuffle (\<lambda>cs. cs)"
  by (simp add: is_shuffle_def)

lemma sample_three_inputs: "3 \<le> card (input ` set sample_translations)"
proof -
  have "input ` set sample_translations = {''a'', ''b'', ''c''}"
    by (auto simp: sample_translations_def rec_ax_def rec_ay_def rec_b_def rec_c_def)
  then show ?thesis by simp
qed

lemma reachable_round_inv:
  assumes "is_shuffle shuffleT" "is_shuffle shuffleB" "3 \<le> card (input ` set ts)"
  shows "\<exists>s. run (initializeGame shuffleT shuffleB ts) es = Inr s \<and> round_inv s
           \<and> length (cards s) = 2 * min 6 (max 3 (card (input ` set ts)))"
proof -
  have u: "3 \<le> length (uniqueTranslations ts)" using assms(3) by (simp add: length_unique)
  from reachable_round [OF assms(1,2) u, of es]
  obtain s where s: "run (initializeGame shuffleT shuffleB ts) es = Inr s" "round_inv s" by blast
  have w: "round_inv (initializeGame shuffleT shuffleB ts)"
    using initializeGame_waiting [OF assms(1,2) u] by (simp add: round_inv_def)
  have "length (cards s) = length (cards (initializeGame shuffleT shuffleB ts))"
    using round_inv_run_frame [OF w s(1)] by simp
  then have "length (cards s) = 2 * min 6 (max 3 (card (input ` set ts)))"
    using initializeGame_cards [OF assms(1,2) u] by (simp add: length_unique)
  then show ?thesis using s by blast
qed

text \<open>
  C1: after every sequence of clicks and timeouts of a round the game is in a regular
  state (no event fails), the number of cards in state Revealed is 0, 1 or 2 (none
  without a selection, one with a first selection, two with a second), and the board is
  locked exactly while a second card is selected, which is exactly while the timeout
  that resolves the mismatch is pending.
\<close>

theorem revealed_count_and_lock:
  assumes "is_shuffle shuffleT" and "is_shuffle shuffleB" and "3 \<le> card (input ` set ts)"
  shows "\<exists>s. run (initializeGame shuffleT shuffleB ts) es = Inr s
           \<and> revealed_count s \<le> 2
           \<and> revealed_count s
               = (if secondCard s \<noteq> None then 2 else if firstCard s \<noteq> None then 1 else 0)
           \<and> lockBoard s = (secondCard s \<noteq> None)
           \<and> lockBoard s = (\<exists>t. timers s = [(t, 500, MismatchHide)])"
proof -
  from reachable_round_inv [OF assms, of es]
  obtain s where s: "run (initializeGame shuffleT shuffleB ts) es = Inr s" "round_inv s" by blast
  note l = round_inv_lock [OF s(2)]
  have "revealed_count s \<le> 2" using l(3) by simp
  then show ?thesis using s(1) l by blast
qed

theorem revealed_count_and_lock_witness:
  "\<exists>s. run sample_round [Timeout 1, Click 0, Click 2] = Inr s
       \<and> lockBoard s \<and> secondCard s = Some 2 \<and> revealed_count s = 2
       \<and> timers s = [(3, 500, MismatchHide)]"
proof -
  from revealed_count_and_lock [OF is_shuffle_rev is_shuffle_keep sample_three_inputs,
      of "[Timeout 1, Click 0, Click 2]"]
  obtain s where s: "run sample_round [Timeout 1, Click 0, Click 2] = Inr s"
    and r: "revealed_count s
               = (if secondCard s \<noteq> None then 2 else if firstCard s \<noteq> None then 1 else 0)"
    unfolding sample_round_def by blast
  have "case run sample_round [Timeout 1, Click 0, Click 2] of
          Inr s \<Rightarrow> lockBoard s \<and> secondCard s = Some 2 \<and> timers s = [(3, 500, MismatchHide)]
        | Inl e \<Rightarrow> False"
    by (simp add: eval_defs toString_small upt_rec)
  then have "lockBoard s \<and> secondCard s = Some 2 \<and> timers s = [(3, 500, MismatchHide)]"
    by (simp only: s sum.case)
  then show ?thesis using s r by simp
qed

text \<open>
  C2: in every reachable state with a first card selected and the board unlocked, a click
  on another card that still listens is the second selection. If the two pair keys are
  equal, both cards are Matched and have lost their listener, for good whatever events
  follow, \<open>matchedCount\<close> has grown by 2, the slots are empty, the board is
  unlocked, and the winner message shows exactly if \<open>matchedCount\<close> is the number
  of cards. If they differ, the board is locked with both cards Revealed and one timeout
  of 500 ms pending, and every event but that timeout is ignored; when it fires both
  cards are Hidden with empty text, \<open>matchedCount\<close> is as before, the slots are
  empty and the board is unlocked.
\<close>

theorem second_selection_resolves:
  assumes "is_shuffle shuffleT" and "is_shuffle shuffleB" and "3 \<le> card (input ` set ts)"
  shows "\<exists>s. run (initializeGame shuffleT shuffleB ts) es = Inr s \<and>
     (\<forall>f i. firstCard s = Some f \<and> \<not> lockBoard s \<and> i \<noteq> f
            \<and> i < length (cards s) \<and> onclick (cards s ! i) \<longrightarrow>
        (\<exists>s1. step s (Click i) = Inr s1 \<and>
          (if pairKey (dataset_id (cards s ! f)) = pairKey (dataset_id (cards s ! i))
           then card_state (cards s1 ! f) = Matched \<and> card_state (cards s1 ! i) = Matched
              \<and> \<not> onclick (cards s1 ! f) \<and> \<not> onclick (cards s1 ! i)
              \<and> (\<forall>es'. \<exists>s2. run s1 es' = Inr s2
                      \<and> \<not> onclick (cards s2 ! f) \<and> \<not> onclick (cards s2 ! i))
              \<and> matchedCount s1 = matchedCount s + 2
              \<and> firstCard s1 = None \<and> secondCard s1 = None \<and> \<not> lockBoard s1
              \<and> winnerMessage_display s1 = (matchedCount s1 = length (cards s1))
              \<and> resetButton_display s1 = winnerMessage_display s1
           else lockBoard s1 \<and> firstCard s1 = Some f \<and> secondCard s1 = Some i
              \<and> card_state (cards s1 ! f) = Revealed \<and> card_state (cards s1 ! i) = Revealed
              \<and> matchedCount s1 = matchedCount s
              \<and> (\<exists>t. timers s1 = [(t, 500, MismatchHide)]
                   \<and> (\<forall>e. e \<noteq> Timeout t \<longrightarrow> step s1 e = Inr s1)
                   \<and> (\<exists>s2. step s1 (Timeout t) = Inr s2
                        \<and> card_state (cards s2 ! f) = Hidden \<and> card_state (cards s2 ! i) = Hidden
                        \<and> textContent (cards s2 ! f) = [] \<and> textContent (cards s2 ! i) = []
                        \<and> matchedCount s2 = matchedCount s
                        \<and> firstCard s2 = None \<and> secondCard s2 = None
                        \<and> \<not> lockBoard s2)))))"
proof -
  from reachable_round_inv [OF assms, of es]
  obtain s where s: "run (initializeGame shuffleT shuffleB ts) es = Inr s" "round_inv s" by blast
  have "\<exists>s1. step s (Click i) = Inr s1 \<and>
          (if pairKey (dataset_id (cards s ! f)) = pairKey (dataset_id (cards s ! i))
           then card_state (cards s1 ! f) = Matched \<and> card_state (cards s1 ! i) = Matched
              \<and> \<not> onclick (cards s1 ! f) \<and> \<not> onclick (cards s1 ! i)
              \<and> (\<forall>es'. \<exists>s2. run s1 es' = Inr s2
                      \<and> \<not> onclick (cards s2 ! f) \<and> \<not> onclick (cards s2 ! i))
              \<and> matchedCount s1 = matchedCount s + 2
              \<and> firstCard s1 = None \<and> secondCard s1 = None \<and> \<not> lockBoard s1
              \<and> winnerMessage_display s1 = (matchedCount s1 = length (cards s1))
              \<and> resetButton_display s1 = winnerMessage_display s1
           else lockBoard s1 \<and> firstCard s1 = Some f \<and> secondCard s1 = Some i
              \<and> card_state (cards s1 ! f) = Revealed \<and> card_state (cards s1 ! i) = Revealed
              \<and> matchedCount s1 = matchedCount s
              \<and> (\<exists>t. timers s1 = [(t, 500, MismatchHide)]
                   \<and> (\<forall>e. e \<noteq> Timeout t \<longrightarrow> step s1 e = Inr s1)
                   \<and> (\<exists>s2. step s1 (Timeout t) = Inr s2
                        \<and> card_state (cards s2 ! f) = Hidden \<and> card_state (cards s2 ! i) = Hidden
                        \<and> textContent (cards s2 ! f) = [] \<and> textContent (cards s2 ! i) = []
                        \<and> matchedCount s2 = matchedCount s
                        \<and> firstCard s2 = None \<and> secondCard s2 = None
                        \<and> \<not> lockBoard s2)))"
    if a: "firstCard s = Some f" "\<not> lockBoard s" "i \<noteq> f" "i < length (cards s)"
      "onclick (cards s ! i)" for f i
  proof (cases "pairKey (dataset_id (cards s ! f)) = pairKey (dataset_id (cards s ! i))")
    case True
    from second_click_match [OF s(2) a True]
    obtain s1 where s1: "step s (Click i) = Inr s1" "round_inv s1"
      "matched_box (cards s1 ! f)" "matched_box (cards s1 ! i)"
      "f < length (cards s1)" "i < length (cards s1)"
      "matchedCount s1 = matchedCount s + 2"
      "firstCard s1 = None" "secondCard s1 = None" "\<not> lockBoard s1"
      "winnerMessage_display s1 = (matchedCount s1 = length (cards s1))"
      "resetButton_display s1 = winnerMessage_display s1" by blast
    have perm: "\<exists>s2. run s1 es' = Inr s2 \<and> \<not> onclick (cards s2 ! f) \<and> \<not> onclick (cards s2 ! i)"
      for es'
    proof -
      from round_inv_run [OF s1(2), of es'] obtain s2 where s2: "run s1 es' = Inr s2" by blast
      have "cards s2 ! f = cards s1 ! f" "cards s2 ! i = cards s1 ! i"
        using round_inv_run_frame [OF s1(2) s2] s1(3,4,5,6) by blast+
      then show ?thesis using s2 s1(3,4) by (simp add: matched_box_def)
    qed
    have "card_state (cards s1 ! f) = Matched" "card_state (cards s1 ! i) = Matched"
      "\<not> onclick (cards s1 ! f)" "\<not> onclick (cards s1 ! i)"
      using s1(3,4) card_state_shapes(4) by (simp_all add: matched_box_def)
    then show ?thesis using True s1 perm by (simp del: step.simps)
  next
    case False
    from second_click_mismatch [OF s(2) a False]
    obtain s1 t s2 where s1: "step s (Click i) = Inr s1"
      "lockBoard s1" "firstCard s1 = Some f" "secondCard s1 = Some i"
      "revealed_box (cards s1 ! f)" "revealed_box (cards s1 ! i)"
      "matchedCount s1 = matchedCount s" "timers s1 = [(t, 500, MismatchHide)]"
      and s2: "step s1 (Timeout t) = Inr s2"
      "hidden_box (cards s2 ! f)" "hidden_box (cards s2 ! i)"
      "matchedCount s2 = matchedCount s"
      "firstCard s2 = None" "secondCard s2 = None" "\<not> lockBoard s2" by blast
    have r: "card_state (cards s1 ! f) = Revealed" "card_state (cards s1 ! i) = Revealed"
      using s1(5,6) card_state_shapes(3) by simp_all
    have h: "card_state (cards s2 ! f) = Hidden" "card_state (cards s2 ! i) = Hidden"
      "textContent (cards s2 ! f) = []" "textContent (cards s2 ! i) = []"
      using s2(2,3) card_state_shapes(2) by (simp_all add: hidden_box_def)
    have idle: "\<forall>e. e \<noteq> Timeout t \<longrightarrow> step s1 e = Inr s1"
      using locked_idle [OF s1(2,8)] by blast
    have "\<exists>s2. step s1 (Timeout t) = Inr s2
                        \<and> card_state (cards s2 ! f) = Hidden \<and> card_state (cards s2 ! i) = Hidden
                        \<and> textContent (cards s2 ! f) = [] \<and> textContent (cards s2 ! i) = []
                        \<and> matchedCount s2 = matchedCount s
                        \<and> firstCard s2 = None \<and> secondCard s2 = None
                        \<and> \<not> lockBoard s2"
      using s2 h by blast
    then show ?thesis using False s1 r idle by (simp del: step.simps)
  qed
  then show ?thesis using s(1) by blast
qed

theorem second_selection_resolves_witness:
  "\<exists>s s1 s2. run sample_round [Timeout 1, Click 0] = Inr s
     \<and> firstCard s = Some 0 \<and> \<not> lockBoard s \<and> matchedCount s = 0
     \<and> onclick (cards s ! 1) \<and> onclick (cards s ! 2)
     \<and> pairKey (dataset_id (cards s ! 0)) = pairKey (dataset_id (cards s ! 1))
     \<and> pairKey (dataset_id (cards s ! 0)) \<noteq> pairKey (dataset_id (cards s ! 2))
     \<and> step s (Click 1) = Inr s1
     \<and> card_state (cards s1 ! 0) = Matched \<and> card_state (cards s1 ! 1) = Matched
     \<and> matchedCount s1 = 2 \<and> \<not> lockBoard s1
     \<and> step s (Click 2) = Inr s2
     \<and> lockBoard s2 \<and> secondCard s2 = Some 2 \<and> matchedCount s2 = 0"
  using second_selection_resolves [OF is_shuffle_rev is_shuffle_keep sample_three_inputs,
      of "[Timeout 1, Click 0]"]
  apply (elim exE conjE)
  subgoal premises prems for s
  proof -
    note s = prems(1) [folded sample_round_def]
    note p = prems(2) [rule_format]
    have "case run sample_round [Timeout 1, Click 0] of
            Inr s \<Rightarrow> firstCard s = Some 0 \<and> \<not> lockBoard s \<and> matchedCount s = 0
              \<and> length (cards s) = 6 \<and> onclick (cards s ! 1) \<and> onclick (cards s ! 2)
              \<and> pairKey (dataset_id (cards s ! 0)) = pairKey (dataset_id (cards s ! 1))
              \<and> pairKey (dataset_id (cards s ! 0)) \<noteq> pairKey (dataset_id (cards s ! 2))
          | Inl e \<Rightarrow> False"
      by (simp add: eval_defs toString_small upt_rec)
    then have "firstCard s = Some 0 \<and> \<not> lockBoard s \<and> matchedCount s = 0
              \<and> length (cards s) = 6 \<and> onclick (cards s ! 1) \<and> onclick (cards s ! 2)
              \<and> pairKey (dataset_id (cards s ! 0)) = pairKey (dataset_id (cards s ! 1))
              \<and> pairKey (dataset_id (cards s ! 0)) \<noteq> pairKey (dataset_id (cards s ! 2))"
      unfolding s sum.case .
    then have e: "firstCard s = Some 0" "\<not> lockBoard s" "matchedCount s = 0"
      "length (cards s) = 6" "onclick (cards s ! 1)" "onclick (cards s ! 2)"
      "pairKey (dataset_id (cards s ! 0)) = pairKey (dataset_id (cards s ! 1))"
      "pairKey (dataset_id (cards s ! 0)) \<noteq> pairKey (dataset_id (cards s ! 2))"
      by blast+
    from p [of 0 1] e obtain s1 where s1: "step s (Click 1) = Inr s1"
      "card_state (cards s1 ! 0) = Matched" "card_state (cards s1 ! 1) = Matched"
      "matchedCount s1 = 2" "\<not> lockBoard s1"
      by (auto simp del: step.simps)
    from p [of 0 2] e obtain s2 where s2: "step s (Click 2) = Inr s2"
      "lockBoard s2" "secondCard s2 = Some 2" "matchedCount s2 = 0"
      by (auto simp del: step.simps)
    show ?thesis using s e s1 s2 by blast
  qed
  done

lemma accepted_click_fresh_timers:
  assumes "round_inv s" "\<not> lockBoard s" "firstCard s \<noteq> Some i"
    "i < length (cards s)" "onclick (cards s ! i)"
  shows "\<exists>s1. step s (Click i) = Inr s1
           \<and> set (timers s) \<inter> set (timers s1) = {}
           \<and> (\<forall>x \<in> set (timers s1). snd (snd x) = AutoHide \<longrightarrow>
                 firstCard s1 = Some i \<and> flipTimer s1 = Some (fst x))"
proof (cases "firstCard s")
  case None
  from first_click [OF assms(1) None assms(2,4,5)]
  obtain s1 t where "step s (Click i) = Inr s1" "firstCard s1 = Some i" "flipTimer s1 = Some t"
    "timers s1 = [(t, 2000, AutoHide)]" "timers s = []" by blast
  then show ?thesis by (simp del: step.simps)
next
  case (Some f)
  then have ne: "i \<noteq> f" using assms(3) by simp
  have pl: "playing s" by (rule selected_playing [OF assms(1) Some])
  from playing_one_selected(4) [OF pl Some assms(2)]
  obtain t0 where t0: "timers s = [(t0, 2000, AutoHide)]" by blast
  show ?thesis
  proof (cases "pairKey (dataset_id (cards s ! f)) = pairKey (dataset_id (cards s ! i))")
    case True
    from second_click_match [OF assms(1) Some assms(2) ne assms(4,5) True]
    obtain s1 where "step s (Click i) = Inr s1" "timers s1 = []" by blast
    then show ?thesis by (simp del: step.simps)
  next
    case False
    from second_click_mismatch [OF assms(1) Some assms(2) ne assms(4,5) False]
    obtain s1 t where "step s (Click i) = Inr s1" "timers s1 = [(t, 500, MismatchHide)]" by blast
    then show ?thesis using t0 by (simp del: step.simps)
  qed
qed

text \<open>
  C3: in every reachable state, a click is ignored when the board is locked or the card
  is the first selection. A click on a listening card with no first selection reveals
  the card, makes it the first selection and leaves exactly one timeout pending, of
  2000 ms; if that fires next, the card is Hidden again with empty text, the slot is
  empty and nothing else has been resolved. After every accepted click no timeout that
  was pending before is still pending, and an auto-hide timeout pending afterwards is
  the one this click started for this card.
\<close>

theorem selection_and_auto_hide:
  assumes "is_shuffle shuffleT" and "is_shuffle shuffleB" and "3 \<le> card (input ` set ts)"
  shows "\<exists>s. run (initializeGame shuffleT shuffleB ts) es = Inr s \<and>
     (\<forall>i. lockBoard s \<or> firstCard s = Some i \<longrightarrow> step s (Click i) = Inr s) \<and>
     (\<forall>i. \<not> lockBoard s \<and> firstCard s = None \<and> i < length (cards s) \<and> onclick (cards s ! i) \<longrightarrow>
        (\<exists>s1 t. step s (Click i) = Inr s1
           \<and> card_state (cards s1 ! i) = Revealed
           \<and> textContent (cards s1 ! i) = dataset_content (cards s ! i)
           \<and> firstCard s1 = Some i \<and> secondCard s1 = None \<and> \<not> lockBoard s1
           \<and> flipTimer s1 = Some t \<and> timers s1 = [(t, 2000, AutoHide)]
           \<and> (\<exists>s2. step s1 (Timeout t) = Inr s2
                 \<and> card_state (cards s2 ! i) = Hidden \<and> textContent (cards s2 ! i) = []
                 \<and> firstCard s2 = None \<and> secondCard s2 = None \<and> \<not> lockBoard s2
                 \<and> matchedCount s2 = matchedCount s \<and> timers s2 = []))) \<and>
     (\<forall>i. \<not> lockBoard s \<and> firstCard s \<noteq> Some i \<and> i < length (cards s) \<and> onclick (cards s ! i) \<longrightarrow>
        (\<exists>s1. step s (Click i) = Inr s1
           \<and> set (timers s) \<inter> set (timers s1) = {}
           \<and> (\<forall>x \<in> set (timers s1). snd (snd x) = AutoHide \<longrightarrow>
                 firstCard s1 = Some i \<and> flipTimer s1 = Some (fst x))))"
proof -
  from reachable_round_inv [OF assms, of es]
  obtain s where s: "run (initializeGame shuffleT shuffleB ts) es = Inr s" "round_inv s" by blast
  have a: "step s (Click i) = Inr s" if "lockBoard s \<or> firstCard s = Some i" for i
    using that by (rule ignored_click)
  have b: "\<exists>s1 t. step s (Click i) = Inr s1
           \<and> card_state (cards s1 ! i) = Revealed
           \<and> textContent (cards s1 ! i) = dataset_content (cards s ! i)
           \<and> firstCard s1 = Some i \<and> secondCard s1 = None \<and> \<not> lockBoard s1
           \<and> flipTimer s1 = Some t \<and> timers s1 = [(t, 2000, AutoHide)]
           \<and> (\<exists>s2. step s1 (Timeout t) = Inr s2
                 \<and> card_state (cards s2 ! i) = Hidden \<and> textContent (cards s2 ! i) = []
                 \<and> firstCard s2 = None \<and> secondCard s2 = None \<and> \<not> lockBoard s2
                 \<and> matchedCount s2 = matchedCount s \<and> timers s2 = [])"
    if h: "\<not> lockBoard s" "firstCard s = None" "i < length (cards s)" "onclick (cards s ! i)" for i
  proof -
    from first_click [OF s(2) h(2,1,3,4)]
    obtain s1 t s2 where s1: "step s (Click i) = Inr s1" "revealed_box (cards s1 ! i)"
      "dataset_content (cards s1 ! i) = dataset_content (cards s ! i)"
      "firstCard s1 = Some i" "secondCard s1 = None" "\<not> lockBoard s1"
      "flipTimer s1 = Some t" "timers s1 = [(t, 2000, AutoHide)]"
      and s2: "step s1 (Timeout t) = Inr s2" "hidden_box (cards s2 ! i)"
      "matchedCount s2 = matchedCount s" "firstCard s2 = None" "secondCard s2 = None"
      "\<not> lockBoard s2" "timers s2 = []" by blast
    have r: "card_state (cards s1 ! i) = Revealed"
      "textContent (cards s1 ! i) = dataset_content (cards s ! i)"
      using s1(2,3) card_state_shapes(3) by (simp_all add: revealed_box_def)
    have hh: "card_state (cards s2 ! i) = Hidden" "textContent (cards s2 ! i) = []"
      using s2(2) card_state_shapes(2) by (simp_all add: hidden_box_def)
    have "\<exists>s2. step s1 (Timeout t) = Inr s2
                 \<and> card_state (cards s2 ! i) = Hidden \<and> textContent (cards s2 ! i) = []
                 \<and> firstCard s2 = None \<and> secondCard s2 = None \<and> \<not> lockBoard s2
                 \<and> matchedCount s2 = matchedCount s \<and> timers s2 = []"
      using s2 hh by blast
    then show ?thesis using s1 r by blast
  qed
  have c: "\<exists>s1. step s (Click i) = Inr s1
           \<and> set (timers s) \<inter> set (timers s1) = {}
           \<and> (\<forall>x \<in> set (timers s1). snd (snd x) = AutoHide \<longrightarrow>
                 firstCard s1 = Some i \<and> flipTimer s1 = Some (fst x))"
    if h: "\<not> lockBoard s" "firstCard s \<noteq> Some i" "i < length (cards s)" "onclick (cards s ! i)" for i
    using accepted_click_fresh_timers [OF s(2) h] .
  show ?thesis using s(1) a b c by blast
qed

lemma run_snoc:
  "run s (es @ [e]) = (case run s es of Inl err \<Rightarrow> Inl err | Inr s' \<Rightarrow> step s' e)"
  by (induction es arbitrary: s) (simp_all split: sum.splits)

theorem selection_and_auto_hide_witness:
  "\<exists>s s1 s2. run sample_round [Timeout 1] = Inr s
     \<and> \<not> lockBoard s \<and> firstCard s = None \<and> onclick (cards s ! 0)
     \<and> step s (Click 0) = Inr s1
     \<and> card_state (cards s1 ! 0) = Revealed \<and> firstCard s1 = Some 0
     \<and> timers s1 = [(2, 2000, AutoHide)]
     \<and> step s1 (Click 0) = Inr s1
     \<and> step s1 (Timeout 2) = Inr s2
     \<and> card_state (cards s2 ! 0) = Hidden \<and> firstCard s2 = None \<and> timers s2 = []"
proof -
  note th = selection_and_auto_hide [OF is_shuffle_rev is_shuffle_keep sample_three_inputs]
  from th [of "[Timeout 1]"] show ?thesis
    apply (elim exE conjE)
    subgoal premises prems for s
    proof -
      note s = prems(1) [folded sample_round_def]
      note p = prems(3) [rule_format]
      have "case run sample_round [Timeout 1] of
              Inr s \<Rightarrow> \<not> lockBoard s \<and> firstCard s = None \<and> length (cards s) = 6
                \<and> onclick (cards s ! 0) \<and> next_timer s = 2
            | Inl e \<Rightarrow> False"
        by (simp add: eval_defs toString_small upt_rec)
      then have "\<not> lockBoard s \<and> firstCard s = None \<and> length (cards s) = 6
                \<and> onclick (cards s ! 0) \<and> next_timer s = 2"
        unfolding s sum.case .
      then have e: "\<not> lockBoard s" "firstCard s = None" "length (cards s) = 6"
        "onclick (cards s ! 0)" "next_timer s = 2"
        by blast+
      from p [of 0] e obtain s1 t s2 where s1: "step s (Click 0) = Inr s1"
        "card_state (cards s1 ! 0) = Revealed" "firstCard s1 = Some 0"
        "flipTimer s1 = Some t" "timers s1 = [(t, 2000, AutoHide)]"
        and s2: "step s1 (Timeout t) = Inr s2"
        "card_state (cards s2 ! 0) = Hidden" "firstCard s2 = None" "timers s2 = []"
        by (auto simp del: step.simps)
      have "flipTimer (flipCard 0 s) = Some 2"
        using e by (simp add: flipCard_first)
      then have t: "t = 2" using s1(1,4) e by simp
      have "run sample_round ([Timeout 1] @ [Click 0]) = Inr s1"
        unfolding run_snoc s using s1(1) by simp
      then have r1: "run (initializeGame rev (\<lambda>cs. cs) sample_translations) [Timeout 1, Click 0] = Inr s1"
        by (simp only: sample_round_def append.simps)
      from th [of "[Timeout 1, Click 0]"]
      obtain sa where "run (initializeGame rev (\<lambda>cs. cs) sample_translations) [Timeout 1, Click 0] = Inr sa"
        and ign: "\<forall>i. lockBoard sa \<or> firstCard sa = Some i \<longrightarrow> step sa (Click i) = Inr sa"
        by blast
      then have again: "step s1 (Click 0) = Inr s1"
        using r1 s1(3) by (simp del: step.simps run.simps)
      show ?thesis using s e s1 s2 t again by blast
    qed
    done
qed

lemma round_inv_won:
  assumes "round_inv s"
  shows "winnerMessage_display s = (matchedCount s = length (cards s))"
  using assms by (auto simp: round_inv_def waiting_def playing_def count_ok_def)

text \<open>
  C4: in every reachable state the round has \<open>2 * min 6 (max 3 n)\<close> cards, \<open>n\<close>
  the number of distinct input texts, and the winner message shows exactly if
  \<open>matchedCount\<close> equals the number of cards. Every event leaves each Matched card
  as it is, leaves \<open>matchedCount\<close> unchanged or adds 2 to it, and changes nothing
  at all once the winner message shows, so the round is won at most once.
\<close>

theorem matched_is_final_and_won_once:
  assumes "is_shuffle shuffleT" and "is_shuffle shuffleB" and "3 \<le> card (input ` set ts)"
  shows "\<exists>s. run (initializeGame shuffleT shuffleB ts) es = Inr s
     \<and> length (cards s) = 2 * min 6 (max 3 (card (input ` set ts)))
     \<and> winnerMessage_display s = (matchedCount s = length (cards s))
     \<and> (\<forall>e. \<exists>s'. step s e = Inr s'
          \<and> (\<forall>j < length (cards s). card_state (cards s ! j) = Matched \<longrightarrow>
                 cards s' ! j = cards s ! j)
          \<and> (matchedCount s' = matchedCount s \<or> matchedCount s' = matchedCount s + 2)
          \<and> (winnerMessage_display s \<longrightarrow> s' = s))"
proof -
  from reachable_round_inv [OF assms, of es]
  obtain s where s: "run (initializeGame shuffleT shuffleB ts) es = Inr s" "round_inv s"
    "length (cards s) = 2 * min 6 (max 3 (card (input ` set ts)))" by blast
  have st: "\<exists>s'. step s e = Inr s'
          \<and> (\<forall>j < length (cards s). card_state (cards s ! j) = Matched \<longrightarrow>
                 cards s' ! j = cards s ! j)
          \<and> (matchedCount s' = matchedCount s \<or> matchedCount s' = matchedCount s + 2)
          \<and> (winnerMessage_display s \<longrightarrow> s' = s)" for e
  proof -
    from round_inv_step [OF s(2), of e] obtain s' where s': "step s e = Inr s'" by blast
    note fr = round_inv_step_frame [OF s(2) s']
    have "\<forall>j < length (cards s). card_state (cards s ! j) = Matched \<longrightarrow>
                 cards s' ! j = cards s ! j"
      using fr matched_state_shape [OF s(2)] by blast
    moreover have "winnerMessage_display s \<longrightarrow> s' = s"
      using won_absorbing [OF s(2), of e] s' by simp
    ultimately show ?thesis using s' fr by blast
  qed
  show ?thesis using s(1,3) round_inv_won [OF s(2)] st by blast
qed

theorem matched_is_final_and_won_once_witness:
  "\<exists>s s' w. run sample_round [Timeout 1, Click 0, Click 1] = Inr s
     \<and> card_state (cards s ! 0) = Matched \<and> matchedCount s = 2 \<and> length (cards s) = 6
     \<and> \<not> winnerMessage_display s
     \<and> step s (Click 2) = Inr s' \<and> cards s' ! 0 = cards s ! 0 \<and> matchedCount s' = 2
     \<and> run sample_round [Timeout 1, Click 0, Click 1, Click 2, Click 3, Click 4, Click 5] = Inr w
     \<and> winnerMessage_display w \<and> matchedCount w = 6 \<and> length (cards w) = 6
     \<and> step w (Click 0) = Inr w \<and> step w (Timeout 2) = Inr w"
proof -
  note th = matched_is_final_and_won_once [OF is_shuffle_rev is_shuffle_keep sample_three_inputs]
  from th [of "[Timeout 1, Click 0, Click 1]"]
  obtain s where s: "run sample_round [Timeout 1, Click 0, Click 1] = Inr s"
    and sl: "length (cards s) = 2 * min 6 (max 3 (card (input ` set sample_translations)))"
    and sw: "winnerMessage_display s = (matchedCount s = length (cards s))"
    and sp: "\<forall>e. \<exists>s'. step s e = Inr s'
          \<and> (\<forall>j < length (cards s). card_state (cards s ! j) = Matched \<longrightarrow>
                 cards s' ! j = cards s ! j)
          \<and> (matchedCount s' = matchedCount s \<or> matchedCount s' = matchedCount s + 2)
          \<and> (winnerMessage_display s \<longrightarrow> s' = s)"
    unfolding sample_round_def by blast
  from th [of "[Timeout 1, Click 0, Click 1, Click 2, Click 3, Click 4, Click 5]"]
  obtain w where w: "run sample_round [Timeout 1, Click 0, Click 1, Click 2, Click 3, Click 4, Click 5] = Inr w"
    and wl: "length (cards w) = 2 * min 6 (max 3 (card (input ` set sample_translations)))"
    and ww: "winnerMessage_display w = (matchedCount w = length (cards w))"
    and wp: "\<forall>e. \<exists>s'. step w e = Inr s'
          \<and> (\<forall>j < length (cards w). card_state (cards w ! j) = Matched \<longrightarrow>
                 cards s' ! j = cards w ! j)
          \<and> (matchedCount s' = matchedCount w \<or> matchedCount s' = matchedCount w + 2)
          \<and> (winnerMessage_display w \<longrightarrow> s' = w)"
    unfolding sample_round_def by blast
  have "case run sample_round [Timeout 1, Click 0, Click 1] of
          Inr s \<Rightarrow> card_state (cards s ! 0) = Matched \<and> matchedCount s = 2
            \<and> length (cards s) = 6
            \<and> (case step s (Click 2) of Inr s' \<Rightarrow> matchedCount s' = 2 | Inl e \<Rightarrow> False)
        | Inl e \<Rightarrow> False"
    by (simp add: eval_defs toString_small upt_rec card_state_def)
  then have "card_state (cards s ! 0) = Matched \<and> matchedCount s = 2 \<and> length (cards s) = 6
            \<and> (case step s (Click 2) of Inr s' \<Rightarrow> matchedCount s' = 2 | Inl e \<Rightarrow> False)"
    unfolding s sum.case .
  then have e: "card_state (cards s ! 0) = Matched" "matchedCount s = 2" "length (cards s) = 6"
    "case step s (Click 2) of Inr s' \<Rightarrow> matchedCount s' = 2 | Inl e \<Rightarrow> False"
    by blast+
  from sp obtain s' where s': "step s (Click 2) = Inr s'"
    "\<forall>j < length (cards s). card_state (cards s ! j) = Matched \<longrightarrow> cards s' ! j = cards s ! j"
    by blast
  have c0: "cards s' ! 0 = cards s ! 0" using s'(2) e(1,3) by simp
  have m': "matchedCount s' = 2" using e(4) unfolding s'(1) sum.case .
  have nw: "\<not> winnerMessage_display s" using sw e(2,3) by simp
  have "case run sample_round [Timeout 1, Click 0, Click 1, Click 2, Click 3, Click 4, Click 5] of
          Inr w \<Rightarrow> matchedCount w = 6 \<and> length (cards w) = 6
        | Inl e \<Rightarrow> False"
    by (simp add: eval_defs toString_small upt_rec)
  then have "matchedCount w = 6 \<and> length (cards w) = 6"
    unfolding w sum.case .
  then have f: "matchedCount w = 6" "length (cards w) = 6" by blast+
  then have won: "winnerMessage_display w" using ww by simp
  have a1: "step w (Click 0) = Inr w" and a2: "step w (Timeout 2) = Inr w"
    using wp won by (metis (no_types))+
  show ?thesis using s e(1,2,3) nw s'(1) c0 m' w won f a1 a2 by blast
qed

lemma insufficient_idle: "step insufficient_page e = Inr insufficient_page"
  by (cases e) (simp_all add: insufficient_page_def page_load_def)

lemma insufficient_run: "run insufficient_page es = Inr insufficient_page"
  by (induction es) (simp_all add: insufficient_idle del: step.simps)

lemma initializeGame_insufficient:
  assumes "card (input ` set ts) < 3"
  shows "initializeGame shuffleT shuffleB ts = insufficient_page"
  using assms
  by (simp add: initializeGame_def insufficient_page_def page_load_def length_unique Let_def)

lemma fetch_failure: "\<not> response_ok r \<Longrightarrow> fetchTranslations r = []"
  by (cases r) simp_all

lemma read_route_unreachable: "\<not> reachable db \<Longrightarrow> read_route db n = Response 404 None"
  by (simp add: read_route_def loadHistory_def allDocs_def)

text \<open>
  C5: with fewer than three distinct input texts \<open>initializeGame\<close> builds no round:
  the page shows the message, the container is disabled, there are no cards and no
  timeout, and no event changes that. A fetch that is rejected, answered with a status
  outside 200 to 299 (as the server does when the store cannot be reached) or with an
  unreadable body yields the empty record list, and with it the same page.
\<close>

theorem insufficient_data_path:
  "(card (input ` set ts) < 3 \<longrightarrow> initializeGame shuffleT shuffleB ts = insufficient_page)
   \<and> (\<not> response_ok r \<longrightarrow>
         fetchTranslations r = []
         \<and> initializeGame shuffleT shuffleB (fetchTranslations r) = insufficient_page)
   \<and> fetchTranslations (Response status None) = []
   \<and> (\<not> reachable db \<longrightarrow>
         \<not> response_ok (read_route db n) \<and> fetchTranslations (read_route db n) = [])
   \<and> message insufficient_page = ''Not enough words to play. Please save more words.''
   \<and> container_disabled insufficient_page
   \<and> cards insufficient_page = [] \<and> timers insufficient_page = []
   \<and> run insufficient_page es = Inr insufficient_page"
proof -
  have "initializeGame shuffleT shuffleB [] = insufficient_page"
    by (rule initializeGame_insufficient) simp
  then show ?thesis
    using initializeGame_insufficient [of ts shuffleT shuffleB] fetch_failure [of r]
      read_route_unreachable [of db n] insufficient_run [of es]
    by (auto simp: insufficient_page_def page_load_def)
qed

theorem insufficient_data_path_witness:
  "card (input ` set [rec_ax, rec_ay]) < 3
   \<and> initializeGame rev (\<lambda>cs. cs) [rec_ax, rec_ay] = insufficient_page
   \<and> \<not> response_ok (Response 404 None)
   \<and> initializeGame rev (\<lambda>cs. cs) (fetchTranslations (Response 404 None)) = insufficient_page
   \<and> \<not> reachable \<lparr>reachable = False, docs = []\<rparr>
   \<and> fetchTranslations (read_route \<lparr>reachable = False, docs = []\<rparr> 50) = []
   \<and> run insufficient_page [Click 0, Timeout 1] = Inr insufficient_page"
proof -
  have c: "card (input ` set [rec_ax, rec_ay]) < 3"
    by (simp add: rec_ax_def rec_ay_def)
  have r: "\<not> response_ok (Response 404 None)" by simp
  have d: "\<not> reachable \<lparr>reachable = False, docs = []\<rparr>" by simp
  show ?thesis
    using insufficient_data_path [of "[rec_ax, rec_ay]" rev "\<lambda>cs. cs" "Response 404 None" 0
        "\<lparr>reachable = False, docs = []\<rparr>" 50 "[Click 0, Timeout 1]"] c r d
    by blast
qed

lemma create_cards_gen_origin:
  assumes "c \<in> set (concat (map pair_cards (enumerate n ps)))"
  shows "\<exists>i < length ps.
           (dataset_id c = ''input-'' @ toString (n + i) \<and> dataset_content c = input (ps ! i))
           \<or> (dataset_id c = ''output-'' @ toString (n + i)
                \<and> dataset_content c = output' (ps ! i))"
  using assms
proof (induction ps arbitrary: n)
  case Nil
  then show ?case by simp
next
  case (Cons p ps)
  show ?case
  proof (cases "c \<in> set (pair_cards (n, p))")
    case True
    then have "(dataset_id c = ''input-'' @ toString (n + 0) \<and> dataset_content c = input ((p # ps) ! 0))
           \<or> (dataset_id c = ''output-'' @ toString (n + 0)
                \<and> dataset_content c = output' ((p # ps) ! 0))"
      by (auto simp: pair_cards_def createBox_def)
    then show ?thesis by blast
  next
    case False
    then have "c \<in> set (concat (map pair_cards (enumerate (Suc n) ps)))"
      using Cons.prems by simp
    from Cons.IH [OF this] obtain i where i: "i < length ps"
      "(dataset_id c = ''input-'' @ toString (Suc n + i) \<and> dataset_content c = input (ps ! i))
           \<or> (dataset_id c = ''output-'' @ toString (Suc n + i)
                \<and> dataset_content c = output' (ps ! i))" by blast
    then have "Suc i < length (p # ps)
       \<and> ((dataset_id c = ''input-'' @ toString (n + Suc i)
              \<and> dataset_content c = input ((p # ps) ! Suc i))
           \<or> (dataset_id c = ''output-'' @ toString (n + Suc i)
                \<and> dataset_content c = output' ((p # ps) ! Suc i)))"
      by simp
    then show ?thesis by blast
  qed
qed

lemma create_cards_origin:
  assumes "c \<in> set (create_cards ps)"
  shows "\<exists>i < length ps.
           (dataset_id c = ''input-'' @ toString i \<and> dataset_content c = input (ps ! i))
           \<or> (dataset_id c = ''output-'' @ toString i \<and> dataset_content c = output' (ps ! i))"
  using create_cards_gen_origin [of c 0 ps] assms by (simp add: create_cards_def)

text \<open>
  C8: the cards built from \<open>k\<close> pairs and shuffled are \<open>2k\<close> cards, a
  reordering of the cards built; for every \<open>i < k\<close> the cards whose pair key is
  \<open>i\<close> are exactly two: one with id \<open>input-i\<close> whose content attribute and
  text are the input text of pair \<open>i\<close>, and one with id \<open>output-i\<close> whose
  content attribute and text are its output text, both with the classes \<open>box\<close> and
  \<open>initial\<close> and without click listener; every card is in state Initial.
\<close>

theorem board_has_two_cards_per_pair:
  assumes "is_shuffle shuffleB"
  shows "length (shuffleB (create_cards pairs)) = 2 * length pairs
       \<and> mset (shuffleB (create_cards pairs)) = mset (create_cards pairs)
       \<and> (\<forall>i < length pairs.
             mset (filter (\<lambda>c. pairKey (dataset_id c) = Some (toString i))
                          (shuffleB (create_cards pairs)))
             = {#\<lparr>classList = [box_c, initial_c],
                  dataset_id = ''input-'' @ toString i,
                  dataset_content = input (pairs ! i),
                  textContent = input (pairs ! i),
                  onclick = False\<rparr>,
                 \<lparr>classList = [box_c, initial_c],
                  dataset_id = ''output-'' @ toString i,
                  dataset_content = output' (pairs ! i),
                  textContent = output' (pairs ! i),
                  onclick = False\<rparr>#})
       \<and> (\<forall>c \<in> set (shuffleB (create_cards pairs)).
             card_state c = Initial \<and> classList c = [box_c, initial_c]
             \<and> textContent c = dataset_content c \<and> \<not> onclick c
             \<and> (\<exists>i < length pairs.
                   (dataset_id c = ''input-'' @ toString i
                      \<and> dataset_content c = input (pairs ! i))
                   \<or> (dataset_id c = ''output-'' @ toString i
                      \<and> dataset_content c = output' (pairs ! i))))"
proof -
  have l: "length (shuffleB (create_cards pairs)) = 2 * length pairs"
    using assms by (simp add: shuffle_length length_create_cards)
  have m: "mset (shuffleB (create_cards pairs)) = mset (create_cards pairs)"
    using assms by (simp add: is_shuffle_def)
  have f: "mset (filter (\<lambda>c. pairKey (dataset_id c) = Some (toString i))
                          (shuffleB (create_cards pairs)))
             = {#\<lparr>classList = [box_c, initial_c],
                  dataset_id = ''input-'' @ toString i,
                  dataset_content = input (pairs ! i),
                  textContent = input (pairs ! i),
                  onclick = False\<rparr>,
                 \<lparr>classList = [box_c, initial_c],
                  dataset_id = ''output-'' @ toString i,
                  dataset_content = output' (pairs ! i),
                  textContent = output' (pairs ! i),
                  onclick = False\<rparr>#}"
    if "i < length pairs" for i
  proof -
    have "mset (filter (\<lambda>c. pairKey (dataset_id c) = Some (toString i))
                          (shuffleB (create_cards pairs)))
          = mset (filter (\<lambda>c. pairKey (dataset_id c) = Some (toString i)) (create_cards pairs))"
      using assms by (rule shuffle_filter_mset)
    also have "\<dots> = mset (pair_cards (i, pairs ! i))"
      by (simp only: create_cards_filter [OF that])
    finally show ?thesis by (simp add: pair_cards_def createBox_def cl_add_def)
  qed
  have a: "card_state c = Initial \<and> classList c = [box_c, initial_c]
             \<and> textContent c = dataset_content c \<and> \<not> onclick c
             \<and> (\<exists>i < length pairs.
                   (dataset_id c = ''input-'' @ toString i
                      \<and> dataset_content c = input (pairs ! i))
                   \<or> (dataset_id c = ''output-'' @ toString i
                      \<and> dataset_content c = output' (pairs ! i)))"
    if "c \<in> set (shuffleB (create_cards pairs))" for c
  proof -
    have mem: "c \<in> set (create_cards pairs)" using that assms by (simp add: shuffle_set)
    then have ib: "initial_box c" by (rule create_cards_initial)
    have "\<exists>i < length pairs.
                   (dataset_id c = ''input-'' @ toString i
                      \<and> dataset_content c = input (pairs ! i))
                   \<or> (dataset_id c = ''output-'' @ toString i
                      \<and> dataset_content c = output' (pairs ! i))"
      using mem by (rule create_cards_origin)
    then show ?thesis using ib card_state_shapes(1) by (simp add: initial_box_def)
  qed
  show ?thesis using l m f a by blast
qed

theorem board_has_two_cards_per_pair_witness:
  "is_shuffle (rev :: box list \<Rightarrow> box list)
   \<and> (1::nat) < length [rec_c, rec_b, rec_ay]
   \<and> length (rev (create_cards [rec_c, rec_b, rec_ay])) = 6
   \<and> mset (filter (\<lambda>c. pairKey (dataset_id c) = Some (toString 1))
                   (rev (create_cards [rec_c, rec_b, rec_ay])))
       = {#\<lparr>classList = [box_c, initial_c], dataset_id = ''input-1'',
            dataset_content = ''b'', textContent = ''b'', onclick = False\<rparr>,
           \<lparr>classList = [box_c, initial_c], dataset_id = ''output-1'',
            dataset_content = ''u'', textContent = ''u'', onclick = False\<rparr>#}
   \<and> createBox ''u'' ''output-1'' \<in> set (rev (create_cards [rec_c, rec_b, rec_ay]))
   \<and> card_state (createBox ''u'' ''output-1'') = Initial
   \<and> textContent (createBox ''u'' ''output-1'') = dataset_content (createBox ''u'' ''output-1'')"
proof -
  note th = board_has_two_cards_per_pair [OF is_shuffle_rev, of "[rec_c, rec_b, rec_ay]"]
  have i: "(1::nat) < length [rec_c, rec_b, rec_ay]" by simp
  have t1: "toString 1 = ''1''" using toString_small(2) by simp
  have v: "input ([rec_c, rec_b, rec_ay] ! 1) = ''b''" "output' ([rec_c, rec_b, rec_ay] ! 1) = ''u''"
    by (simp_all add: rec_b_def)
  have mem: "createBox ''u'' ''output-1'' \<in> set (rev (create_cards [rec_c, rec_b, rec_ay]))"
    by (simp add: create_cards_def pair_cards_def enumerate_eq_zip upt_rec toString_small rec_b_def)
  from th i have "mset (filter (\<lambda>c. pairKey (dataset_id c) = Some (toString 1))
                   (rev (create_cards [rec_c, rec_b, rec_ay])))
       = {#\<lparr>classList = [box_c, initial_c],
            dataset_id = ''input-'' @ toString 1,
            dataset_content = input ([rec_c, rec_b, rec_ay] ! 1),
            textContent = input ([rec_c, rec_b, rec_ay] ! 1),
            onclick = False\<rparr>,
           \<lparr>classList = [box_c, initial_c],
            dataset_id = ''output-'' @ toString 1,
            dataset_content = output' ([rec_c, rec_b, rec_ay] ! 1),
            textContent = output' ([rec_c, rec_b, rec_ay] ! 1),
            onclick = False\<rparr>#}"
    by blast
  then have f: "mset (filter (\<lambda>c. pairKey (dataset_id c) = Some (toString 1))
                   (rev (create_cards [rec_c, rec_b, rec_ay])))
       = {#\<lparr>classList = [box_c, initial_c], dataset_id = ''input-1'',
            dataset_content = ''b'', textContent = ''b'', onclick = False\<rparr>,
           \<lparr>classList = [box_c, initial_c], dataset_id = ''output-1'',
            dataset_content = ''u'', textContent = ''u'', onclick = False\<rparr>#}"
    by (simp only: v t1 append.simps)
  from th mem have "card_state (createBox ''u'' ''output-1'') = Initial
      \<and> textContent (createBox ''u'' ''output-1'') = dataset_content (createBox ''u'' ''output-1'')"
    by blast
  moreover from th have "length (rev (create_cards [rec_c, rec_b, rec_ay])) = 6" by simp
  ultimately show ?thesis using is_shuffle_rev i f mem by blast
qed

section \<open>Properties of the history store\<close>

lemma digit_char_one: "digit_char (Suc 0) = CHR ''1''"
  using digit_char_values(2) by simp

lemma toString_upto_10:
  "toString 0 = ''0''" "toString 1 = ''1''" "toString 2 = ''2''" "toString 3 = ''3''"
  "toString 4 = ''4''" "toString 5 = ''5''" "toString 6 = ''6''" "toString 7 = ''7''"
  "toString 8 = ''8''" "toString 9 = ''9''" "toString 10 = ''10''"
  by (simp_all add: toString.simps digit_char_one)

lemmas store_defs = saveTranslation_def findTranslation_def find_docs_def nextID_def allDocs_def
  put_def by_id_def parseInt_def is_digit_def Let_def stored_def eleven_docs_def entry_def

lemma save_steps:
  "saveTranslation (stored 0) ''w0'' ''m0'' ''en'' ''fr'' = Inr (stored 1)"
  "saveTranslation (stored 1) ''w1'' ''m1'' ''en'' ''fr'' = Inr (stored 2)"
  "saveTranslation (stored 2) ''w2'' ''m2'' ''en'' ''fr'' = Inr (stored 3)"
  "saveTranslation (stored 3) ''w3'' ''m3'' ''en'' ''fr'' = Inr (stored 4)"
  "saveTranslation (stored 4) ''w4'' ''m4'' ''en'' ''fr'' = Inr (stored 5)"
  "saveTranslation (stored 5) ''w5'' ''m5'' ''en'' ''fr'' = Inr (stored 6)"
  "saveTranslation (stored 6) ''w6'' ''m6'' ''en'' ''fr'' = Inr (stored 7)"
  "saveTranslation (stored 7) ''w7'' ''m7'' ''en'' ''fr'' = Inr (stored 8)"
  "saveTranslation (stored 8) ''w8'' ''m8'' ''en'' ''fr'' = Inr (stored 9)"
  "saveTranslation (stored 9) ''w9'' ''m9'' ''en'' ''fr'' = Inr (stored 10)"
  "saveTranslation (stored 10) ''w10'' ''m10'' ''en'' ''fr'' = Inr (stored 11)"
  by (simp_all add: store_defs toString_upto_10 toString_small)

lemma save_eleven: "save_all empty_store eleven_words = Inr (stored 11)"
proof -
  have e: "empty_store = stored 0" by (simp add: empty_store_def stored_def)
  show ?thesis
    by (simp only: e eleven_words_def save_all.simps fst_conv snd_conv save_steps sum.case)
qed

lemma load_one: "loadHistory (stored 11) 1 = Inr [entry ''9'' ''w9'' ''m9'']"
  by (simp add: loadHistory_def allDocs_def stored_def by_id_def eleven_docs_def entry_def)

lemma load_three: "loadHistory (stored 11) 3 = Inr [entry ''9'' ''w9'' ''m9'', entry ''8'' ''w8'' ''m8'', entry ''7'' ''w7'' ''m7'']"
  by (simp add: loadHistory_def allDocs_def stored_def by_id_def eleven_docs_def entry_def)

lemma recent_one: "most_recently_stored 1 (stored 11) = [entry ''10'' ''w10'' ''m10'']"
  by (simp add: most_recently_stored_def stored_def eleven_docs_def)

lemma next_eleven: "nextID (stored 11) = Inr ''10''"
  by (simp add: store_defs toString_upto_10)

lemma twelfth: "saveTranslation (stored 11) ''w11'' ''m11'' ''en'' ''fr'' = Inl Conflict"
  by (simp add: store_defs toString_upto_10)

lemma stored_eleven: "docs (stored 11) = eleven_docs"
  by (simp add: stored_def eleven_docs_def)

lemma set_insert_by_id: "set (insert_by_id d es) = insert d (set es)"
  by (induction es) auto

lemma set_by_id: "set (by_id ds) = set ds"
  by (induction ds) (simp_all add: by_id_def set_insert_by_id)

text \<open>
  What does hold of \<open>loadHistory\<close>: it returns at most \<open>n\<close> records, all of
  them records of the store, and fails only when the store cannot be reached.
\<close>

lemma loadHistory_at_most:
  assumes "loadHistory db n = Inr h"
  shows "length h \<le> n \<and> set h \<subseteq> set (docs db)"
proof -
  from assms have h: "h = take n (rev (by_id (docs db)))"
    by (auto simp: loadHistory_def allDocs_def split: if_splits)
  have "set h \<subseteq> set (rev (by_id (docs db)))"
    unfolding h by (rule set_take_subset)
  then show ?thesis using h by (simp add: set_by_id)
qed

lemma loadHistory_reachable: "reachable db \<Longrightarrow> \<exists>h. loadHistory db n = Inr h"
  by (simp add: loadHistory_def allDocs_def)

text \<open>
  C9, at a store the code builds itself: eleven different words are saved into an empty
  store and receive the ids 0 to 10. \<open>loadHistory\<close> with \<open>n = 1\<close> then
  returns the record with id 9, the tenth that was stored, and with \<open>n = 3\<close> the
  records 9, 8 and 7, while the most recently stored record is the one with id 10: the
  ids are ordered as strings, and \<open>10\<close> comes before \<open>2\<close>. For the same
  reason \<open>nextID\<close> answers 10 again and the twelfth save is rejected as a conflict.
\<close>

theorem loadHistory_misses_most_recent:
  "save_all empty_store eleven_words = Inr (stored 11)
   \<and> docs (stored 11) = eleven_docs
   \<and> loadHistory (stored 11) 1 = Inr [entry ''9'' ''w9'' ''m9'']
   \<and> most_recently_stored 1 (stored 11) = [entry ''10'' ''w10'' ''m10'']
   \<and> loadHistory (stored 11) 3
       = Inr [entry ''9'' ''w9'' ''m9'', entry ''8'' ''w8'' ''m8'', entry ''7'' ''w7'' ''m7'']
   \<and> nextID (stored 11) = Inr ''10''
   \<and> saveTranslation (stored 11) ''w11'' ''m11'' ''en'' ''fr'' = Inl Conflict"
  using save_eleven stored_eleven load_one load_three recent_one next_eleven twelfth by blast

text \<open>
  C10: whatever the regular-expression engine, a search that returns records has compiled
  the search text itself, unescaped, with the flag \<open>i\<close>, and returns exactly the
  stored records whose input the compiled expression matches, in order of their ids;
  so the text is read as a case-insensitive regular expression, not as a literal
  substring.
\<close>

theorem search_is_case_insensitive_regex:
  assumes "searchTranslations RegExp test db searchText = Inr result"
  shows "\<exists>regex. RegExp searchText ''i'' = Some regex
           \<and> result = filter (\<lambda>d. test regex (input d)) (by_id (docs db))
           \<and> (\<forall>d \<in> set result. d \<in> set (docs db) \<and> test regex (input d))
           \<and> (\<forall>d \<in> set (docs db). test regex (input d) \<longrightarrow> d \<in> set result)"
proof -
  from assms obtain regex where r: "RegExp searchText ''i'' = Some regex"
    by (auto simp: searchTranslations_def split: option.splits)
  then have "result = filter (\<lambda>d. test regex (input d)) (by_id (docs db))"
    using assms by (auto simp: searchTranslations_def find_docs_def split: if_splits)
  then show ?thesis using r by (auto simp: set_by_id)
qed

lemmas regex_defs = sample_RegExp_def sample_test_def syntax_char_def atom_of_def fold_case_def

theorem search_is_case_insensitive_regex_witness:
  "searchTranslations sample_RegExp sample_test \<lparr>reachable = True, docs = search_docs\<rparr> ''a.c''
     = Inr [entry ''0'' ''abc'' ''x'', entry ''1'' ''a.c'' ''y'', entry ''2'' ''xABCx'' ''z'']
   \<and> sample_RegExp ''a.c'' ''i'' = Some (True, [(Lit CHR ''a'', False), (AnyChar, False), (Lit CHR ''c'', False)])
   \<and> sample_test (True, [(Lit CHR ''a'', False), (AnyChar, False), (Lit CHR ''c'', False)]) ''xABCx''
   \<and> searchTranslations sample_RegExp sample_test \<lparr>reachable = True, docs = search_docs\<rparr> ''b*c''
     = Inr [entry ''0'' ''abc'' ''x'', entry ''1'' ''a.c'' ''y'', entry ''2'' ''xABCx'' ''z'', entry ''3'' ''ac'' ''u'']"
proof -
  have s: "searchTranslations sample_RegExp sample_test \<lparr>reachable = True, docs = search_docs\<rparr> ''a.c''
     = Inr [entry ''0'' ''abc'' ''x'', entry ''1'' ''a.c'' ''y'', entry ''2'' ''xABCx'' ''z'']"
    by (simp add: searchTranslations_def find_docs_def by_id_def search_docs_def entry_def regex_defs)
  have s2: "searchTranslations sample_RegExp sample_test \<lparr>reachable = True, docs = search_docs\<rparr> ''b*c''
     = Inr [entry ''0'' ''abc'' ''x'', entry ''1'' ''a.c'' ''y'', entry ''2'' ''xABCx'' ''z'', entry ''3'' ''ac'' ''u'']"
    by (simp add: searchTranslations_def find_docs_def by_id_def search_docs_def entry_def regex_defs)
  have c: "sample_RegExp ''a.c'' ''i'' = Some (True, [(Lit CHR ''a'', False), (AnyChar, False), (Lit CHR ''c'', False)])"
    by (simp add: regex_defs)
  from search_is_case_insensitive_regex [OF s] c
  have "\<forall>d \<in> set [entry ''0'' ''abc'' ''x'', entry ''1'' ''a.c'' ''y'', entry ''2'' ''xABCx'' ''z''].
          sample_test (True, [(Lit CHR ''a'', False), (AnyChar, False), (Lit CHR ''c'', False)]) (input d)"
    by auto
  then have "sample_test (True, [(Lit CHR ''a'', False), (AnyChar, False), (Lit CHR ''c'', False)]) ''xABCx''"
    by (simp add: entry_def)
  then show ?thesis using s s2 c by blast
qed

end
